theory Spec2Isabelle
  imports Main "HOL-Library.Char_ord" "HOL-Library.List_Lexorder" "HOL-Library.Word"
begin

section \<open>The ordered index: package skiplist\<close>

text \<open>
  The skip list of package \<^verbatim>\<open>skiplist\<close> is embedded over an explicit heap: a node pointer
  is an address into the list of allocated nodes (\<open>None\<close> is Go's \<^verbatim>\<open>nil\<close>), and every
  operation takes the skip list and returns the updated one. Execution is sequential, so
  a mutex is always free when it is locked and the lock bookkeeping of the source
  (\<^verbatim>\<open>lockedNodes\<close>, \<^verbatim>\<open>highestLocked\<close>) is left out. Keys are strings, as in all four uses of
  the index, ordered bytewise as Go orders them.

  A run-time panic of the source is the value \<open>Inl p\<close>; a loop of the source that never
  ends is the value \<open>None\<close> of the enclosing option.

  Go returns a pair \<^verbatim>\<open>(v, ok)\<close> whose value is the zero value when \<^verbatim>\<open>ok\<close> is false; the pair
  is written as an option here. The callback \<^verbatim>\<open>check(key, currValue, exists)\<close> is called
  by the source only as \<^verbatim>\<open>check(key, v, true)\<close> and \<^verbatim>\<open>check(key, zero, false)\<close>, written
  \<open>check key (Some v)\<close> and \<open>check key None\<close>.

  The counter \<^verbatim>\<open>count\<close> is an \<^verbatim>\<open>atomic.Int64\<close>: a 64-bit word, on which \<^verbatim>\<open>Add(1)\<close> wraps around.
\<close>

datatype panic = NilDeref | IndexOutOfRange

type_synonym addr = nat
type_synonym ptr = "addr option"
type_synonym error = string
type_synonym 'v UpdateCheck = "string \<Rightarrow> 'v option \<Rightarrow> error + 'v"

definition MAX_LEVEL :: nat where
  "MAX_LEVEL = 11"

record 'v node =
  key :: string
  val :: "'v option"
  topLevel :: nat
  marked :: bool
  fullyLinked :: bool
  nexts :: "ptr list"

record 'v skiplist =
  nodes :: "'v node list"
  head :: addr
  tail :: addr
  count :: "64 word"

text \<open>Dereferencing a pointer, indexing a slice, loading and storing \<^verbatim>\<open>next[level]\<close>.\<close>

definition node_at :: "'v node list \<Rightarrow> ptr \<Rightarrow> panic + 'v node" where
  "node_at h p = (case p of None \<Rightarrow> Inl NilDeref
     | Some a \<Rightarrow> if a < length h then Inr (h ! a) else Inl NilDeref)"

definition index :: "'a list \<Rightarrow> nat \<Rightarrow> panic + 'a" where
  "index xs i = (if i < length xs then Inr (xs ! i) else Inl IndexOutOfRange)"

definition load_next :: "'v node \<Rightarrow> nat \<Rightarrow> panic + ptr" where
  "load_next n l = index (nexts n) l"

definition store_next :: "'v node list \<Rightarrow> ptr \<Rightarrow> nat \<Rightarrow> ptr \<Rightarrow> panic + 'v node list" where
  "store_next h p l q = (case node_at h p of Inl e \<Rightarrow> Inl e
     | Inr n \<Rightarrow> if l < length (nexts n)
         then Inr (h[the p := n\<lparr>nexts := (nexts n)[l := q]\<rparr>])
         else Inl IndexOutOfRange)"

text \<open>\<^verbatim>\<open>NewSkipList\<close>: the head is allocated at address 0 and the tail at address 1.\<close>

definition NewSkipList :: "'v skiplist" where
  "NewSkipList =
    (let tailNode = \<lparr>key = [], val = None, topLevel = MAX_LEVEL, marked = False,
                     fullyLinked = False, nexts = replicate MAX_LEVEL None\<rparr>;
         headNode = \<lparr>key = [], val = None, topLevel = MAX_LEVEL, marked = False,
                     fullyLinked = False, nexts = replicate MAX_LEVEL (Some 1)\<rparr>
     in \<lparr>nodes = [headNode, tailNode], head = 0, tail = 1, count = 0\<rparr>)"

text \<open>
  \<^verbatim>\<open>find\<close>. \<open>find_walk\<close> is the inner loop \<^verbatim>\<open>for key > curr.key\<close>, entered when
  \<^verbatim>\<open>curr != s.tail\<close>; \<open>find_levels\<close> is the outer loop, its fourth argument being
  \<^verbatim>\<open>level + 1\<close>.
\<close>

partial_function (option) find_walk ::
  "'v node list \<Rightarrow> addr \<Rightarrow> nat \<Rightarrow> string \<Rightarrow> ptr \<Rightarrow> ptr \<Rightarrow> (panic + ptr \<times> ptr) option" where
  "find_walk h t level k predN currN =
     (case node_at h currN of
        Inl p \<Rightarrow> Some (Inl p)
      | Inr cn \<Rightarrow>
          if k > key cn then
            (case load_next cn level of
               Inl p \<Rightarrow> Some (Inl p)
             | Inr succN \<Rightarrow>
                 if succN = Some t then Some (Inr (currN, succN))
                 else find_walk h t level k currN succN)
          else Some (Inr (predN, currN)))"

declare find_walk.simps [code]

fun find_levels ::
  "'v node list \<Rightarrow> addr \<Rightarrow> string \<Rightarrow> nat \<Rightarrow> ptr \<Rightarrow> nat option \<Rightarrow> ptr list \<Rightarrow> ptr list
     \<Rightarrow> (panic + nat option \<times> ptr list \<times> ptr list) option" where
  "find_levels h t k 0 predN foundLevel preds succs = Some (Inr (foundLevel, preds, succs))"
| "find_levels h t k (Suc level) predN foundLevel preds succs =
     (case node_at h predN of
        Inl p \<Rightarrow> Some (Inl p)
      | Inr pn \<Rightarrow>
     (case load_next pn level of
        Inl p \<Rightarrow> Some (Inl p)
      | Inr currN \<Rightarrow>
     (case (if currN \<noteq> Some t then find_walk h t level k predN currN
            else Some (Inr (predN, currN))) of
        None \<Rightarrow> None
      | Some (Inl p) \<Rightarrow> Some (Inl p)
      | Some (Inr (predN', currN')) \<Rightarrow>
     (case (if foundLevel = None
            then (case node_at h currN' of
                    Inl p \<Rightarrow> Inl p
                  | Inr cn \<Rightarrow> Inr (if k = key cn then Some level else None))
            else Inr foundLevel) of
        Inl p \<Rightarrow> Some (Inl p)
      | Inr foundLevel' \<Rightarrow>
          find_levels h t k level predN' foundLevel'
            (preds[level := predN']) (succs[level := currN'])))))"

definition find_sl ::
  "'v skiplist \<Rightarrow> string \<Rightarrow> (panic + nat option \<times> ptr list \<times> ptr list) option" where
  "find_sl s k = find_levels (nodes s) (tail s) k MAX_LEVEL (Some (head s)) None
     (replicate MAX_LEVEL None) (replicate MAX_LEVEL None)"

text \<open>\<^verbatim>\<open>Find\<close>: \<open>Some v\<close> is \<^verbatim>\<open>(v, true)\<close>, \<open>None\<close> is a result whose flag is false.\<close>

definition Find :: "'v skiplist \<Rightarrow> string \<Rightarrow> (panic + 'v option) option" where
  "Find s k =
     (case find_sl s k of
        None \<Rightarrow> None
      | Some (Inl p) \<Rightarrow> Some (Inl p)
      | Some (Inr (levelFound, preds, succs)) \<Rightarrow>
          (case levelFound of
             None \<Rightarrow> Some (Inr None)
           | Some lf \<Rightarrow>
          (case index succs lf of
             Inl p \<Rightarrow> Some (Inl p)
           | Inr foundNode \<Rightarrow>
          (case node_at (nodes s) foundNode of
             Inl p \<Rightarrow> Some (Inl p)
           | Inr fn \<Rightarrow>
          (case val fn of
             None \<Rightarrow> Some (Inl NilDeref)
           | Some v \<Rightarrow> Some (Inr (if fullyLinked fn \<and> \<not> marked fn then Some v else None)))))))"

text \<open>
  \<^verbatim>\<open>Upsert\<close>. \<open>validate_preds\<close> is the loop \<^verbatim>\<open>for valid && level <= topLevel\<close> that locks and
  revalidates the predecessors; \<open>link_levels\<close> is the loop that links the new node, which
  lives at address \<open>new\<close>. The values that successive calls of \<^verbatim>\<open>randomLevel()\<close> return are
  the sequence \<open>rnd 0\<close>, \<open>rnd 1\<close>, ...; \<^verbatim>\<open>randomLevel\<close> itself returns a level between 1 and
  \<open>MAX_LEVEL\<close>, both included. The new node enters the heap when it is linked, after the
  callback has succeeded.
\<close>

function validate_preds ::
  "'v node list \<Rightarrow> ptr list \<Rightarrow> ptr list \<Rightarrow> nat \<Rightarrow> nat \<Rightarrow> panic + bool" where
  "validate_preds h preds succs topLvl level =
     (if level \<le> topLvl then
        (case index preds level of
           Inl p \<Rightarrow> Inl p
         | Inr predNode \<Rightarrow>
        (case index succs level of
           Inl p \<Rightarrow> Inl p
         | Inr succNode \<Rightarrow>
           if predNode = None \<or> succNode = None then Inr False
           else
        (case node_at h predNode of
           Inl p \<Rightarrow> Inl p
         | Inr pn \<Rightarrow>
        (case node_at h succNode of
           Inl p \<Rightarrow> Inl p
         | Inr sn \<Rightarrow>
        (case load_next pn level of
           Inl p \<Rightarrow> Inl p
         | Inr nx \<Rightarrow>
           let unmarked = (\<not> marked pn \<and> \<not> marked sn);
               connected = (nx = succNode)
           in if unmarked \<and> connected
              then validate_preds h preds succs topLvl (Suc level)
              else Inr False)))))
      else Inr True)"
  by pat_completeness auto
termination
  by (relation "measure (\<lambda>(h, preds, succs, topLvl, level). Suc topLvl - level)") auto

function link_levels ::
  "'v node list \<Rightarrow> ptr list \<Rightarrow> ptr list \<Rightarrow> addr \<Rightarrow> nat \<Rightarrow> nat \<Rightarrow> panic + 'v node list" where
  "link_levels h preds succs new topLvl level =
     (if level \<le> topLvl then
        (case index preds level of
           Inl p \<Rightarrow> Inl p
         | Inr predNode \<Rightarrow>
        (case store_next h predNode level (Some new) of
           Inl p \<Rightarrow> Inl p
         | Inr h1 \<Rightarrow>
        (case index succs level of
           Inl p \<Rightarrow> Inl p
         | Inr succNode \<Rightarrow>
        (case store_next h1 (Some new) level succNode of
           Inl p \<Rightarrow> Inl p
         | Inr h2 \<Rightarrow> link_levels h2 preds succs new topLvl (Suc level)))))
      else Inr h)"
  by pat_completeness auto
termination
  by (relation "measure (\<lambda>(h, preds, succs, new, topLvl, level). Suc topLvl - level)") auto

definition store_val :: "'v node list \<Rightarrow> addr \<Rightarrow> 'v \<Rightarrow> 'v node list" where
  "store_val h a v = h[a := (h ! a)\<lparr>val := Some v\<rparr>]"

definition set_fullyLinked :: "'v node list \<Rightarrow> addr \<Rightarrow> 'v node list" where
  "set_fullyLinked h a = h[a := (h ! a)\<lparr>fullyLinked := True\<rparr>]"

definition set_marked :: "'v node list \<Rightarrow> addr \<Rightarrow> 'v node list" where
  "set_marked h a = h[a := (h ! a)\<lparr>marked := True\<rparr>]"

partial_function (option) Upsert ::
  "'v skiplist \<Rightarrow> string \<Rightarrow> 'v UpdateCheck \<Rightarrow> (nat \<Rightarrow> nat)
     \<Rightarrow> (panic + 'v skiplist \<times> bool \<times> error option) option" where
  "Upsert s k check rnd =
     (case find_sl s k of
        None \<Rightarrow> None
      | Some (Inl p) \<Rightarrow> Some (Inl p)
      | Some (Inr (levelFound, preds, succs)) \<Rightarrow>
          (case levelFound of
             Some lf \<Rightarrow>
               (case index succs lf of
                  Inl p \<Rightarrow> Some (Inl p)
                | Inr foundNode \<Rightarrow>
               (case node_at (nodes s) foundNode of
                  Inl p \<Rightarrow> Some (Inl p)
                | Inr fn \<Rightarrow>
                  if marked fn \<or> \<not> fullyLinked fn then Upsert s k check rnd
                  else
               (case val fn of
                  None \<Rightarrow> Some (Inl NilDeref)
                | Some currValue \<Rightarrow>
               (case check k (Some currValue) of
                  Inl err \<Rightarrow> Some (Inr (s, False, Some err))
                | Inr newValue \<Rightarrow>
                    Some (Inr (s\<lparr>nodes := store_val (nodes s) (the foundNode) newValue\<rparr>,
                               True, None))))))
           | None \<Rightarrow>
               (let topLvl = rnd 0 in
               (case validate_preds (nodes s) preds succs topLvl 0 of
                  Inl p \<Rightarrow> Some (Inl p)
                | Inr valid \<Rightarrow>
                  if \<not> valid then Upsert s k check (\<lambda>i. rnd (Suc i))
                  else
               (case check k None of
                  Inl err \<Rightarrow> Some (Inr (s, False, Some err))
                | Inr newValue \<Rightarrow>
                    (let new = length (nodes s);
                         newNode = \<lparr>key = k, val = Some newValue, topLevel = topLvl,
                                    marked = False, fullyLinked = False,
                                    nexts = replicate (topLvl + 1) None\<rparr>
                     in
               (case link_levels (nodes s @ [newNode]) preds succs new topLvl 0 of
                  Inl p \<Rightarrow> Some (Inl p)
                | Inr h \<Rightarrow>
                    Some (Inr (s\<lparr>nodes := set_fullyLinked h new, count := count s + 1\<rparr>,
                               True, None)))))))))"

declare Upsert.simps [code]

text \<open>
  \<^verbatim>\<open>Remove\<close>. The loop variables \<^verbatim>\<open>isMarked\<close> and \<^verbatim>\<open>topLevel\<close> are set together, so they are
  one option: \<open>None\<close> is \<^verbatim>\<open>isMarked = false\<close> (and \<^verbatim>\<open>topLevel = -1\<close>), \<open>Some l\<close> is
  \<^verbatim>\<open>isMarked = true\<close> with \<^verbatim>\<open>topLevel = l\<close>. \<open>validate_victim\<close> is the loop that locks the
  predecessors, \<open>unlink_levels\<close> the loop that unlinks the victim top-down, its last
  argument being \<^verbatim>\<open>level + 1\<close>. The result \<open>Some v\<close> is \<^verbatim>\<open>(v, true)\<close>, \<open>None\<close> is
  \<^verbatim>\<open>(zero, false)\<close>.
\<close>

function validate_victim ::
  "'v node list \<Rightarrow> ptr list \<Rightarrow> ptr \<Rightarrow> nat \<Rightarrow> nat \<Rightarrow> panic + bool" where
  "validate_victim h preds victim topLvl level =
     (if level \<le> topLvl then
        (case index preds level of
           Inl p \<Rightarrow> Inl p
         | Inr predN \<Rightarrow>
        (case node_at h predN of
           Inl p \<Rightarrow> Inl p
         | Inr pn \<Rightarrow>
        (case load_next pn level of
           Inl p \<Rightarrow> Inl p
         | Inr nx \<Rightarrow>
           let successor = (nx = victim)
           in if \<not> marked pn \<and> successor
              then validate_victim h preds victim topLvl (Suc level)
              else Inr False)))
      else Inr True)"
  by pat_completeness auto
termination
  by (relation "measure (\<lambda>(h, preds, victim, topLvl, level). Suc topLvl - level)") auto

fun unlink_levels :: "'v node list \<Rightarrow> ptr list \<Rightarrow> ptr \<Rightarrow> nat \<Rightarrow> panic + 'v node list" where
  "unlink_levels h preds victim 0 = Inr h"
| "unlink_levels h preds victim (Suc level) =
     (case index preds level of
        Inl p \<Rightarrow> Inl p
      | Inr predN \<Rightarrow>
     (case node_at h victim of
        Inl p \<Rightarrow> Inl p
      | Inr vn \<Rightarrow>
     (case load_next vn level of
        Inl p \<Rightarrow> Inl p
      | Inr nx \<Rightarrow>
     (case store_next h predN level nx of
        Inl p \<Rightarrow> Inl p
      | Inr h1 \<Rightarrow> unlink_levels h1 preds victim level))))"

partial_function (option) Remove_loop ::
  "'v skiplist \<Rightarrow> string \<Rightarrow> nat option \<Rightarrow> (panic + 'v skiplist \<times> 'v option) option" where
  "Remove_loop s k isMarked =
     (case find_sl s k of
        None \<Rightarrow> None
      | Some (Inl p) \<Rightarrow> Some (Inl p)
      | Some (Inr (foundLevel, preds, succs)) \<Rightarrow>
          (case foundLevel of
             None \<Rightarrow> Some (Inr (s, None))
           | Some fl \<Rightarrow>
          (case index succs fl of
             Inl p \<Rightarrow> Some (Inl p)
           | Inr victim \<Rightarrow>
             if victim = None then Some (Inr (s, None))
             else
          (case node_at (nodes s) victim of
             Inl p \<Rightarrow> Some (Inl p)
           | Inr vn \<Rightarrow>
             if isMarked = None \<and> (\<not> fullyLinked vn \<or> marked vn \<or> topLevel vn \<noteq> fl)
             then Some (Inr (s, None))
             else
               (let topLvl = (case isMarked of None \<Rightarrow> topLevel vn | Some l \<Rightarrow> l);
                    s1 = (case isMarked of
                            None \<Rightarrow> s\<lparr>nodes := set_marked (nodes s) (the victim)\<rparr>
                          | Some l \<Rightarrow> s)
                in
          (case validate_victim (nodes s1) preds victim topLvl 0 of
             Inl p \<Rightarrow> Some (Inl p)
           | Inr valid \<Rightarrow>
             if \<not> valid then Remove_loop s1 k (Some topLvl)
             else
          (case unlink_levels (nodes s1) preds victim (Suc topLvl) of
             Inl p \<Rightarrow> Some (Inl p)
           | Inr h \<Rightarrow>
          (case node_at h victim of
             Inl p \<Rightarrow> Some (Inl p)
           | Inr vn' \<Rightarrow>
          (case val vn' of
             None \<Rightarrow> Some (Inl NilDeref)
           | Some removedValue \<Rightarrow>
               Some (Inr (s1\<lparr>nodes := h, count := count s1 + 1\<rparr>, Some removedValue)))))))))))"

declare Remove_loop.simps [code]

definition Remove :: "'v skiplist \<Rightarrow> string \<Rightarrow> (panic + 'v skiplist \<times> 'v option) option" where
  "Remove s k = Remove_loop s k None"

text \<open>
  \<^verbatim>\<open>Query\<close>. The context is \<open>ctxErr\<close>, the value of \<^verbatim>\<open>ctx.Err()\<close> for the whole call:
  \<open>None\<close> while \<^verbatim>\<open>ctx.Done()\<close> is open, \<open>Some err\<close> once it is closed. \<open>query_walk\<close> is the
  loop \<^verbatim>\<open>for current != skipList.tail\<close>; it yields \<open>Inl err\<close> where the source returns
  \<^verbatim>\<open>nil, ctx.Err()\<close>. The counter is read before and after the scan, here from the same
  state.
\<close>

partial_function (option) query_walk ::
  "'v node list \<Rightarrow> addr \<Rightarrow> error option \<Rightarrow> bool \<Rightarrow> string \<Rightarrow> ptr \<Rightarrow> 'v list
     \<Rightarrow> (panic + error + 'v list) option" where
  "query_walk h t ctxErr goToEnd end current results =
     (if current \<noteq> Some t then
        (case ctxErr of
           Some err \<Rightarrow> Some (Inr (Inl err))
         | None \<Rightarrow>
          (case node_at h current of
             Inl p \<Rightarrow> Some (Inl p)
           | Inr cn \<Rightarrow>
             if \<not> goToEnd \<and> key cn > end then Some (Inr (Inr results))
             else
          (case (if fullyLinked cn \<and> \<not> marked cn
                 then (case val cn of None \<Rightarrow> Inl NilDeref | Some v \<Rightarrow> Inr (results @ [v]))
                 else Inr results) of
             Inl p \<Rightarrow> Some (Inl p)
           | Inr results' \<Rightarrow>
          (case load_next cn 0 of
             Inl p \<Rightarrow> Some (Inl p)
           | Inr nx \<Rightarrow> query_walk h t ctxErr goToEnd end nx results'))))
      else Some (Inr (Inr results)))"

declare query_walk.simps [code]

partial_function (option) Query ::
  "'v skiplist \<Rightarrow> error option \<Rightarrow> string \<Rightarrow> string \<Rightarrow> (panic + error + 'v list) option" where
  "Query s ctxErr start end =
     (let preCount = count s in
      (case (if start = []
             then (case node_at (nodes s) (Some (head s)) of
                     Inl p \<Rightarrow> Some (Inl p)
                   | Inr hn \<Rightarrow> Some (load_next hn 0))
             else (case find_sl s start of
                     None \<Rightarrow> None
                   | Some (Inl p) \<Rightarrow> Some (Inl p)
                   | Some (Inr (foundLevel, preds, succs)) \<Rightarrow> Some (index succs 0))) of
         None \<Rightarrow> None
       | Some (Inl p) \<Rightarrow> Some (Inl p)
       | Some (Inr current) \<Rightarrow>
           (let goToEnd = (end = []) in
            (case query_walk (nodes s) (tail s) ctxErr goToEnd end current [] of
               None \<Rightarrow> None
             | Some (Inl p) \<Rightarrow> Some (Inl p)
             | Some (Inr (Inl err)) \<Rightarrow> Some (Inr (Inl err))
             | Some (Inr (Inr results)) \<Rightarrow>
                 (let postCount = count s in
                  if postCount \<noteq> preCount then Query s ctxErr start end
                  else Some (Inr (Inr results)))))))"

declare Query.simps [code]

definition nxt :: "'v node list \<Rightarrow> nat \<Rightarrow> addr \<Rightarrow> ptr" where
  "nxt h l a = (if a < length h \<and> l < length (nexts (h ! a)) then nexts (h ! a) ! l else None)"

fun lpath :: "'v node list \<Rightarrow> nat \<Rightarrow> addr \<Rightarrow> addr list \<Rightarrow> addr \<Rightarrow> bool" where
  "lpath h l a [] t = (nxt h l a = Some t)"
| "lpath h l a (b # bs) t = (nxt h l a = Some b \<and> lpath h l b bs t)"

definition level_nodes :: "'v node list \<Rightarrow> nat \<Rightarrow> addr list \<Rightarrow> addr list" where
  "level_nodes h l c0 = filter (\<lambda>a. l \<le> topLevel (h ! a)) c0"

definition sl_inv :: "'v skiplist \<Rightarrow> addr list \<Rightarrow> bool" where
  "sl_inv s c0 =
     (let h = nodes s in
      head s < length h \<and> tail s < length h \<and> head s \<noteq> tail s \<and>
      head s \<notin> set c0 \<and> tail s \<notin> set c0 \<and>
      key (h ! tail s) = [] \<and> \<not> marked (h ! head s) \<and> \<not> marked (h ! tail s) \<and>
      sorted_wrt (<) (map (\<lambda>a. key (h ! a)) c0) \<and>
      (\<forall>a \<in> set c0. a < length h \<and> topLevel (h ! a) < MAX_LEVEL \<and>
         length (nexts (h ! a)) = Suc (topLevel (h ! a)) \<and>
         fullyLinked (h ! a) \<and> \<not> marked (h ! a) \<and> val (h ! a) \<noteq> None) \<and>
      (\<forall>l \<in> set [0..<MAX_LEVEL]. lpath h l (head s) (level_nodes h l c0) (tail s)))"

definition lo :: "'v node list \<Rightarrow> addr list \<Rightarrow> string \<Rightarrow> nat \<Rightarrow> addr list" where
  "lo h c0 k l = filter (\<lambda>a. key (h ! a) < k) (level_nodes h l c0)"

definition hi :: "'v node list \<Rightarrow> addr list \<Rightarrow> string \<Rightarrow> nat \<Rightarrow> addr list" where
  "hi h c0 k l = filter (\<lambda>a. \<not> key (h ! a) < k) (level_nodes h l c0)"

definition pred_of :: "'v skiplist \<Rightarrow> addr list \<Rightarrow> string \<Rightarrow> nat \<Rightarrow> addr" where
  "pred_of s c0 k l = (if lo (nodes s) c0 k l = [] then head s else last (lo (nodes s) c0 k l))"

definition succ_of :: "'v skiplist \<Rightarrow> addr list \<Rightarrow> string \<Rightarrow> nat \<Rightarrow> addr" where
  "succ_of s c0 k l = (if hi (nodes s) c0 k l = [] then tail s else hd (hi (nodes s) c0 k l))"

primrec found_lvl :: "(nat \<Rightarrow> bool) \<Rightarrow> nat \<Rightarrow> nat option" where
  "found_lvl m 0 = None"
| "found_lvl m (Suc l) = (if m l then Some l else found_lvl m l)"

definition in_range :: "string \<Rightarrow> string \<Rightarrow> string \<Rightarrow> bool" where
  "in_range start end k = ((start = [] \<or> start \<le> k) \<and> (end = [] \<or> k \<le> end))"

definition entries :: "'v skiplist \<Rightarrow> addr list \<Rightarrow> (string \<times> 'v) list" where
  "entries s c0 = map (\<lambda>a. (key (nodes s ! a), the (val (nodes s ! a)))) c0"

definition example_index :: "nat skiplist" where
  "example_index =
    \<lparr>nodes =
      [\<lparr>key = [], val = None, topLevel = 11, marked = False, fullyLinked = False,
        nexts = [Some 3, Some 3, Some 3, Some 3, Some 1, Some 1, Some 1, Some 1, Some 1, Some 1, Some 1]\<rparr>,
       \<lparr>key = [], val = None, topLevel = 11, marked = False, fullyLinked = False,
        nexts = [None, None, None, None, None, None, None, None, None, None, None]\<rparr>,
       \<lparr>key = ''b'', val = Some 2, topLevel = 1, marked = False, fullyLinked = True,
        nexts = [Some 4, Some 4]\<rparr>,
       \<lparr>key = ''a'', val = Some 1, topLevel = 3, marked = False, fullyLinked = True,
        nexts = [Some 2, Some 2, Some 4, Some 1]\<rparr>,
       \<lparr>key = ''c'', val = Some 3, topLevel = 2, marked = False, fullyLinked = True,
        nexts = [Some 1, Some 1, Some 1]\<rparr>],
     head = 0, tail = 1, count = 3\<rparr>"

definition after :: "(panic + 'v skiplist \<times> 'r) option \<Rightarrow> 'v skiplist" where
  "after r = (case r of Some (Inr (s, x)) \<Rightarrow> s | _ \<Rightarrow> NewSkipList)"

definition lookup_addr :: "'v skiplist \<Rightarrow> addr list \<Rightarrow> string \<Rightarrow> addr option" where
  "lookup_addr s c0 k = List.find (\<lambda>a. key (nodes s ! a) = k) c0"

declare validate_preds.simps [simp del] link_levels.simps [simp del] validate_victim.simps [simp del]

definition same_shape :: "'v node list \<Rightarrow> 'v node list \<Rightarrow> bool" where
  "same_shape h h' = (length h' = length h \<and>
     (\<forall>a < length h. (h' ! a)\<lparr>nexts := nexts (h ! a)\<rparr> = h ! a \<and>
        length (nexts (h' ! a)) = length (nexts (h ! a))))"

definition insert_chain :: "'v skiplist \<Rightarrow> addr list \<Rightarrow> string \<Rightarrow> addr list" where
  "insert_chain s c0 k = lo (nodes s) c0 k 0 @ [length (nodes s)] @ hi (nodes s) c0 k 0"

definition no_level :: "'v skiplist \<Rightarrow> string \<Rightarrow> bool" where
  "no_level s k = (case find_sl s k of Some (Inr (None, preds, succs)) \<Rightarrow> True | _ \<Rightarrow> False)"

datatype 'v op =
    Upsert_op string "'v UpdateCheck" "nat \<Rightarrow> nat"
  | Remove_op string
  | Find_op string
  | Query_op "error option" string string

fun step :: "'v skiplist \<Rightarrow> 'v op \<Rightarrow> ('v skiplist \<times> bool) option" where
  "step s (Upsert_op k check rnd) =
     (case Upsert s k check rnd of
        Some (Inr (s', changed, err)) \<Rightarrow> Some (s', no_level s k \<and> changed)
      | _ \<Rightarrow> None)"
| "step s (Remove_op k) =
     (case Remove s k of
        Some (Inr (s', removed)) \<Rightarrow> Some (s', removed \<noteq> None)
      | _ \<Rightarrow> None)"
| "step s (Find_op k) =
     (case Find s k of Some (Inr r) \<Rightarrow> Some (s, False) | _ \<Rightarrow> None)"
| "step s (Query_op ctxErr start end) =
     (case Query s ctxErr start end of Some (Inr r) \<Rightarrow> Some (s, False) | _ \<Rightarrow> None)"

fun run :: "'v skiplist \<Rightarrow> 'v op list \<Rightarrow> ('v skiplist \<times> nat) option" where
  "run s [] = Some (s, 0)"
| "run s (x # xs) =
     (case step s x of
        None \<Rightarrow> None
      | Some (s1, structural) \<Rightarrow>
          (case run s1 xs of
             None \<Rightarrow> None
           | Some (s', n) \<Rightarrow> Some (s', (if structural then 1 else 0) + n)))"

definition example_ops :: "nat op list" where
  "example_ops =
     [Upsert_op ''b'' (\<lambda>key cur. Inr 2) (\<lambda>i. 1),
      Upsert_op ''a'' (\<lambda>key cur. Inr 1) (\<lambda>i. 3),
      Upsert_op ''a'' (\<lambda>key cur. Inr 5) (\<lambda>i. 2),
      Upsert_op ''c'' (\<lambda>key cur. Inl ''rejected'') (\<lambda>i. 2),
      Find_op ''a'',
      Remove_op ''b'',
      Remove_op ''zz'',
      Query_op None [] []]"

record Metadata =
  CreatedBy :: string
  CreatedAt :: int
  LastModifiedBy :: string
  LastModifiedAt :: int

record 'c Document =
  Name :: string
  Path :: string
  Content :: 'c
  Metadata :: Metadata
  Collections :: "nat option"

definition updateCheck ::
  "'c \<Rightarrow> string \<Rightarrow> string \<Rightarrow> ('c \<Rightarrow> error option) \<Rightarrow> (nat \<Rightarrow> int) \<Rightarrow> nat
     \<Rightarrow> 'c Document UpdateCheck" where
  "updateCheck documentContent user mode schema now fresh k cur =
     (case schema documentContent of
        Some err \<Rightarrow> Inl err
      | None \<Rightarrow>
          (case cur of
             Some currValue \<Rightarrow>
               if mode = ''nooverwrite''
               then Inl ''document exists and mode is nooverwrite''
               else Inr \<lparr>Name = k, Path = [], Content = documentContent,
                         Metadata = \<lparr>CreatedBy = CreatedBy (Metadata currValue),
                                     CreatedAt = CreatedAt (Metadata currValue),
                                     LastModifiedBy = user,
                                     LastModifiedAt = now 0\<rparr>,
                         Collections = None\<rparr>
           | None \<Rightarrow>
               Inr \<lparr>Name = k, Path = [], Content = documentContent,
                    Metadata = \<lparr>CreatedBy = user, CreatedAt = now 0,
                                LastModifiedBy = user, LastModifiedAt = now 1\<rparr>,
                    Collections = Some fresh\<rparr>))"

definition PutDocument ::
  "'c Document skiplist \<Rightarrow> string \<Rightarrow> 'c \<Rightarrow> string \<Rightarrow> string \<Rightarrow> ('c \<Rightarrow> error option)
     \<Rightarrow> (nat \<Rightarrow> int) \<Rightarrow> nat \<Rightarrow> (nat \<Rightarrow> nat)
     \<Rightarrow> (panic + 'c Document skiplist \<times> bool \<times> error option) option" where
  "PutDocument documentList documentName documentContent user mode schema now fresh rnd =
     Upsert documentList documentName
       (updateCheck documentContent user mode schema now fresh) rnd"

definition GetDocument :: "'c Document skiplist \<Rightarrow> string \<Rightarrow> (panic + error + 'c Document) option" where
  "GetDocument documentList documentName =
     (case Find documentList documentName of
        None \<Rightarrow> None
      | Some (Inl p) \<Rightarrow> Some (Inl p)
      | Some (Inr None) \<Rightarrow> Some (Inr (Inl ''failed to find document''))
      | Some (Inr (Some document)) \<Rightarrow> Some (Inr (Inr document)))"

definition accept_all :: "string \<Rightarrow> error option" where
  "accept_all documentContent = None"

definition example_docs :: "string Document skiplist" where
  "example_docs = after (PutDocument NewSkipList ''doc1'' ''body1'' ''alice'' ''overwrite''
     accept_all (\<lambda>i. 100) 7 (\<lambda>i. 1))"

fun abs_step :: "(string \<rightharpoonup> 'v) \<Rightarrow> 'v op \<Rightarrow> (string \<rightharpoonup> 'v)" where
  "abs_step m (Upsert_op k check rnd) =
     (case check k (m k) of Inl err \<Rightarrow> m | Inr v \<Rightarrow> m(k \<mapsto> v))"
| "abs_step m (Remove_op k) = m(k := None)"
| "abs_step m (Find_op k) = m"
| "abs_step m (Query_op ctxErr start end) = m"

fun changes_keys :: "(string \<rightharpoonup> 'v) \<Rightarrow> 'v op \<Rightarrow> bool" where
  "changes_keys m (Upsert_op k check rnd) =
     (m k = None \<and> (case check k None of Inl err \<Rightarrow> False | Inr v \<Rightarrow> True))"
| "changes_keys m (Remove_op k) = (m k \<noteq> None)"
| "changes_keys m (Find_op k) = False"
| "changes_keys m (Query_op ctxErr start end) = False"

fun abs_run :: "(string \<rightharpoonup> 'v) \<Rightarrow> 'v op list \<Rightarrow> (string \<rightharpoonup> 'v) \<times> nat" where
  "abs_run m [] = (m, 0)"
| "abs_run m (x # xs) =
     (case abs_run (abs_step m x) xs of
        (m', n) \<Rightarrow> (m', (if changes_keys m x then 1 else 0) + n))"

fun op_ok :: "'v op \<Rightarrow> bool" where
  "op_ok (Upsert_op k check rnd) = (k \<noteq> [] \<and> rnd 0 < MAX_LEVEL)"
| "op_ok (Remove_op k) = (k \<noteq> [])"
| "op_ok (Find_op k) = (k \<noteq> [])"
| "op_ok (Query_op ctxErr start end) = True"

section \<open>Properties of the ordered index\<close>

text \<open>
  Claim C5 (the index cannot fail, also when the random top level is \<open>MAX_LEVEL\<close>).
  \<^verbatim>\<open>randomLevel\<close> returns \<open>MAX_LEVEL\<close> after ten draws below 0.5. The slices \<^verbatim>\<open>preds\<close> and
  \<^verbatim>\<open>succs\<close> of \<^verbatim>\<open>find\<close> have \<open>MAX_LEVEL\<close> entries, and the validation loop of \<^verbatim>\<open>Upsert\<close> runs
  while \<^verbatim>\<open>level <= topLevel\<close>: inserting a new key into an empty index with that top level
  reads \<^verbatim>\<open>preds[11]\<close> and panics with an index out of range.
\<close>

theorem Upsert_MAX_LEVEL_index_out_of_range:
  "Upsert (NewSkipList :: nat skiplist) ''db1'' (\<lambda>key cur. Inr 0) (\<lambda>i. MAX_LEVEL)
     = Some (Inl IndexOutOfRange)"
  by code_simp

lemma nxt_Some: "nxt h l a = Some b \<Longrightarrow> a < length h \<and> l < length (nexts (h ! a)) \<and> nexts (h ! a) ! l = Some b"
  by (simp add: nxt_def split: if_splits)

lemma node_at_Some [simp]: "a < length h \<Longrightarrow> node_at h (Some a) = Inr (h ! a)"
  by (simp add: node_at_def)

lemma load_next_nxt: "nxt h l a = Some b \<Longrightarrow> load_next (h ! a) l = Inr (Some b)"
  by (auto simp: nxt_def load_next_def index_def split: if_splits)

lemma path_valid: "lpath h l a bs t \<Longrightarrow> a < length h"
  by (cases bs) (auto dest: nxt_Some)

lemma path_append:
  "lpath h l a (xs @ b # ys) t \<longleftrightarrow> lpath h l a xs b \<and> lpath h l b ys t"
  by (induction xs arbitrary: a) auto

lemma find_walk_path:
  assumes "lpath h l b bs t" "t \<notin> set bs"
  shows "find_walk h t l k p (Some b) =
     Some (Inr ((if takeWhile (\<lambda>a. key (h ! a) < k) (b # bs) = [] then p
                 else Some (last (takeWhile (\<lambda>a. key (h ! a) < k) (b # bs)))),
                (if dropWhile (\<lambda>a. key (h ! a) < k) (b # bs) = [] then Some t
                 else Some (hd (dropWhile (\<lambda>a. key (h ! a) < k) (b # bs))))))"
  using assms
proof (induction bs arbitrary: b p)
  case Nil
  then have b: "b < length h" and n: "nxt h l b = Some t" by (auto dest: nxt_Some)
  show ?case
    by (subst find_walk.simps) (simp add: b load_next_nxt[OF n])
next
  case (Cons c cs)
  then have b: "b < length h" and n: "nxt h l b = Some c" and p: "lpath h l c cs t"
    and ct: "c \<noteq> t" and t: "t \<notin> set cs"
    by (auto dest: nxt_Some)
  show ?case
  proof (cases "key (h ! b) < k")
    case False
    then show ?thesis by (subst find_walk.simps) (simp add: b)
  next
    case True
    have "find_walk h t l k p (Some b) = find_walk h t l k (Some b) (Some c)"
      by (subst find_walk.simps) (simp add: b True load_next_nxt[OF n] ct)
    also note Cons.IH[OF p t, of "Some b"]
    finally show ?thesis using True
      by auto
  qed
qed

lemma sorted_takeWhile_filter:
  "sorted_wrt (<) (map f xs) \<Longrightarrow> takeWhile (\<lambda>a. f a < (k::'b::linorder)) xs = filter (\<lambda>a. f a < k) xs"
proof (induction xs)
  case Nil
  then show ?case by simp
next
  case (Cons x xs)
  show ?case
  proof (cases "f x < k")
    case True
    with Cons show ?thesis by simp
  next
    case False
    have "\<forall>y \<in> set xs. \<not> f y < k" using Cons.prems False by fastforce
    then have "filter (\<lambda>a. f a < k) xs = []" by (simp add: filter_empty_conv)
    with False show ?thesis by simp
  qed
qed

lemma sorted_dropWhile_filter:
  "sorted_wrt (<) (map f xs) \<Longrightarrow> dropWhile (\<lambda>a. f a < (k::'b::linorder)) xs = filter (\<lambda>a. \<not> f a < k) xs"
proof (induction xs)
  case Nil
  then show ?case by simp
next
  case (Cons x xs)
  show ?case
  proof (cases "f x < k")
    case True
    with Cons show ?thesis by simp
  next
    case False
    have "\<forall>y \<in> set xs. \<not> f y < k" using Cons.prems False by fastforce
    then have "filter (\<lambda>a. \<not> f a < k) xs = xs" by (simp add: filter_id_conv)
    with False show ?thesis by simp
  qed
qed

lemma sorted_lo_hi:
  "sorted_wrt (<) (map f xs) \<Longrightarrow> xs = filter (\<lambda>a. f a < (k::'b::linorder)) xs @ filter (\<lambda>a. \<not> f a < k) xs"
  using takeWhile_dropWhile_id[of "\<lambda>a. f a < k" xs]
  by (simp add: sorted_takeWhile_filter sorted_dropWhile_filter)

lemma sl_inv_sorted_level:
  "sl_inv s c0 \<Longrightarrow> sorted_wrt (<) (map (\<lambda>a. key (nodes s ! a)) (level_nodes (nodes s) l c0))"
  by (simp add: sl_inv_def Let_def level_nodes_def sorted_wrt_map sorted_wrt_filter)

lemma level_lo_hi:
  "sl_inv s c0 \<Longrightarrow> level_nodes (nodes s) l c0 = lo (nodes s) c0 k l @ hi (nodes s) c0 k l"
  unfolding lo_def hi_def by (rule sorted_lo_hi[OF sl_inv_sorted_level])

lemma lo_Suc: "lo h c0 k (Suc l) = filter (\<lambda>a. Suc l \<le> topLevel (h ! a)) (lo h c0 k l)"
  by (auto simp: lo_def level_nodes_def intro: filter_cong)

lemma sl_inv_path:
  "sl_inv s c0 \<Longrightarrow> l < MAX_LEVEL \<Longrightarrow> lpath (nodes s) l (head s) (level_nodes (nodes s) l c0) (tail s)"
  by (simp add: sl_inv_def Let_def)

lemma sl_inv_tail_notin: "sl_inv s c0 \<Longrightarrow> tail s \<notin> set (level_nodes (nodes s) l c0)"
  by (simp add: sl_inv_def Let_def level_nodes_def)

text \<open>The chain of level l after the predecessor found on level l + 1.\<close>

lemma rest_of_level:
  assumes inv: "sl_inv s c0" and l: "l < MAX_LEVEL"
  shows "\<exists>ys. lpath (nodes s) l (pred_of s c0 k (Suc l)) (ys @ hi (nodes s) c0 k l) (tail s) \<and>
              set ys \<subseteq> set (lo (nodes s) c0 k l) \<and>
              pred_of s c0 k l = (if ys = [] then pred_of s c0 k (Suc l) else last ys)"
proof (cases "lo (nodes s) c0 k (Suc l) = []")
  case True
  have p: "lpath (nodes s) l (head s) (lo (nodes s) c0 k l @ hi (nodes s) c0 k l) (tail s)"
    using sl_inv_path[OF inv l] level_lo_hi[OF inv, of l k] by simp
  have "pred_of s c0 k (Suc l) = head s" using True by (simp add: pred_of_def)
  moreover have "pred_of s c0 k l = (if lo (nodes s) c0 k l = [] then head s else last (lo (nodes s) c0 k l))"
    by (simp add: pred_of_def)
  ultimately show ?thesis using p by (intro exI[of _ "lo (nodes s) c0 k l"]) simp
next
  case False
  define p where "p = last (lo (nodes s) c0 k (Suc l))"
  have pp: "pred_of s c0 k (Suc l) = p" using False by (simp add: pred_of_def p_def)
  have "p \<in> set (lo (nodes s) c0 k (Suc l))" using False by (simp add: p_def)
  then have pin: "p \<in> set (lo (nodes s) c0 k l)" and ptop: "Suc l \<le> topLevel (nodes s ! p)"
    by (auto simp: lo_Suc)
  obtain xs ys where split: "lo (nodes s) c0 k l = xs @ p # ys" and notin: "p \<notin> set ys"
    using split_list_last[OF pin] by blast
  have p: "lpath (nodes s) l (head s) (xs @ p # (ys @ hi (nodes s) c0 k l)) (tail s)"
    using sl_inv_path[OF inv l] level_lo_hi[OF inv, of l k] split by simp
  then have p': "lpath (nodes s) l p (ys @ hi (nodes s) c0 k l) (tail s)"
    by (simp add: path_append)
  have "set ys \<subseteq> set (lo (nodes s) c0 k l)" using split by auto
  moreover have "pred_of s c0 k l = (if ys = [] then p else last ys)"
    by (simp add: pred_of_def split)
  ultimately show ?thesis using p' pp by (intro exI[of _ ys]) simp
qed

lemma takeWhile_filter_not: "takeWhile P (filter (\<lambda>a. \<not> P a) xs) = []"
  by (induction xs) auto

lemma dropWhile_filter_not: "dropWhile P (filter (\<lambda>a. \<not> P a) xs) = filter (\<lambda>a. \<not> P a) xs"
  by (induction xs) auto

lemma sl_inv_head_valid: "sl_inv s c0 \<Longrightarrow> head s < length (nodes s)"
  by (simp add: sl_inv_def Let_def)

lemma sl_inv_tail_valid: "sl_inv s c0 \<Longrightarrow> tail s < length (nodes s)"
  by (simp add: sl_inv_def Let_def)

lemma sl_inv_node: "sl_inv s c0 \<Longrightarrow> a \<in> set c0 \<Longrightarrow>
   a < length (nodes s) \<and> topLevel (nodes s ! a) < MAX_LEVEL \<and>
   length (nexts (nodes s ! a)) = Suc (topLevel (nodes s ! a)) \<and>
   fullyLinked (nodes s ! a) \<and> \<not> marked (nodes s ! a) \<and> val (nodes s ! a) \<noteq> None \<and>
   a \<noteq> head s \<and> a \<noteq> tail s"
  by (auto simp: sl_inv_def Let_def)

lemma lo_subset: "set (lo h c0 k l) \<subseteq> set c0"
  by (auto simp: lo_def level_nodes_def)

lemma hi_subset: "set (hi h c0 k l) \<subseteq> set c0"
  by (auto simp: hi_def level_nodes_def)

lemma pred_of_cases: "pred_of s c0 k l = head s \<or> pred_of s c0 k l \<in> set c0"
proof (cases "lo (nodes s) c0 k l = []")
  case True
  then show ?thesis by (simp add: pred_of_def)
next
  case False
  then have "last (lo (nodes s) c0 k l) \<in> set (lo (nodes s) c0 k l)" by simp
  then have "last (lo (nodes s) c0 k l) \<in> set c0" using lo_subset[of "nodes s" c0 k l] by blast
  then show ?thesis using False by (simp add: pred_of_def)
qed

lemma succ_of_cases: "succ_of s c0 k l = tail s \<or> succ_of s c0 k l \<in> set c0"
proof (cases "hi (nodes s) c0 k l = []")
  case True
  then show ?thesis by (simp add: succ_of_def)
next
  case False
  then have "hd (hi (nodes s) c0 k l) \<in> set (hi (nodes s) c0 k l)" by simp
  then have "hd (hi (nodes s) c0 k l) \<in> set c0" using hi_subset[of "nodes s" c0 k l] by blast
  then show ?thesis using False by (simp add: succ_of_def)
qed

lemma pred_of_valid: "sl_inv s c0 \<Longrightarrow> pred_of s c0 k l < length (nodes s)"
  using pred_of_cases[of s c0 k l] by (auto dest: sl_inv_node sl_inv_head_valid)

lemma succ_of_valid: "sl_inv s c0 \<Longrightarrow> succ_of s c0 k l < length (nodes s)"
  using succ_of_cases[of s c0 k l] by (auto dest: sl_inv_node sl_inv_tail_valid)

lemma find_level_step:
  assumes inv: "sl_inv s c0" and l: "l < MAX_LEVEL"
  shows "\<exists>c. load_next (nodes s ! pred_of s c0 k (Suc l)) l = Inr c \<and>
     (if c \<noteq> Some (tail s)
      then find_walk (nodes s) (tail s) l k (Some (pred_of s c0 k (Suc l))) c
      else Some (Inr (Some (pred_of s c0 k (Suc l)), c)))
     = Some (Inr (Some (pred_of s c0 k l), Some (succ_of s c0 k l)))"
proof -
  define P where "P = (\<lambda>a. key (nodes s ! a) < k)"
  define p where "p = pred_of s c0 k (Suc l)"
  define H where "H = hi (nodes s) c0 k l"
  obtain ys where lpath: "lpath (nodes s) l p (ys @ H) (tail s)"
    and ys_sub: "set ys \<subseteq> set (lo (nodes s) c0 k l)"
    and pr: "pred_of s c0 k l = (if ys = [] then p else last ys)"
    using rest_of_level[OF inv l, of k] unfolding p_def H_def by blast
  have ys: "\<forall>y \<in> set ys. P y" using ys_sub by (auto simp: lo_def P_def)
  have hi: "H = filter (\<lambda>a. \<not> P a) (level_nodes (nodes s) l c0)"
    by (simp add: hi_def P_def H_def)
  have tw: "takeWhile P (ys @ H) = ys"
    using ys by (simp add: hi takeWhile_filter_not)
  have dw: "dropWhile P (ys @ H) = H"
    using ys by (simp add: hi dropWhile_filter_not)
  have tl_notin: "tail s \<notin> set (ys @ H)"
    using ys_sub sl_inv_tail_notin[OF inv, of l] by (auto simp: hi lo_def)
  have su: "succ_of s c0 k l = (if H = [] then tail s else hd H)"
    by (simp add: succ_of_def H_def)
  show ?thesis
  proof (cases "ys @ H")
    case Nil
    then have "nxt (nodes s) l p = Some (tail s)" using lpath by simp
    then have "load_next (nodes s ! p) l = Inr (Some (tail s))" by (rule load_next_nxt)
    then show ?thesis using Nil pr su by (simp add: p_def[symmetric])
  next
    case (Cons b bs)
    then have n: "nxt (nodes s) l p = Some b" and pb: "lpath (nodes s) l b bs (tail s)"
      using lpath by simp_all
    have bt: "b \<noteq> tail s" and t: "tail s \<notin> set bs" using tl_notin Cons by auto
    have ld: "load_next (nodes s ! p) l = Inr (Some b)" using n by (rule load_next_nxt)
    have "find_walk (nodes s) (tail s) l k (Some p) (Some b) =
       Some (Inr ((if takeWhile P (b # bs) = [] then Some p else Some (last (takeWhile P (b # bs)))),
                  (if dropWhile P (b # bs) = [] then Some (tail s) else Some (hd (dropWhile P (b # bs))))))"
      unfolding P_def by (rule find_walk_path[OF pb t])
    then have "find_walk (nodes s) (tail s) l k (Some p) (Some b) =
       Some (Inr (Some (pred_of s c0 k l), Some (succ_of s c0 k l)))"
      using tw dw pr su unfolding Cons[symmetric] by simp
    then show ?thesis using ld bt by (simp add: p_def[symmetric])
  qed
qed

lemma find_levels_inv:
  assumes inv: "sl_inv s c0"
  shows "n \<le> MAX_LEVEL \<Longrightarrow> length preds = MAX_LEVEL \<Longrightarrow> length succs = MAX_LEVEL \<Longrightarrow>
    \<exists>preds' succs'.
      find_levels (nodes s) (tail s) k n (Some (pred_of s c0 k n)) fl preds succs =
        Some (Inr ((case fl of Some x \<Rightarrow> Some x
                    | None \<Rightarrow> found_lvl (\<lambda>l. k = key (nodes s ! succ_of s c0 k l)) n),
                   preds', succs')) \<and>
      length preds' = MAX_LEVEL \<and> length succs' = MAX_LEVEL \<and>
      (\<forall>l. preds' ! l = (if l < n then Some (pred_of s c0 k l) else preds ! l)) \<and>
      (\<forall>l. succs' ! l = (if l < n then Some (succ_of s c0 k l) else succs ! l))"
proof (induction n arbitrary: fl preds succs)
  case 0
  then show ?case by (simp split: option.splits)
next
  case (Suc n)
  then have n: "n < MAX_LEVEL" by simp
  define fl' where "fl' = (if fl = None
       then (if k = key (nodes s ! succ_of s c0 k n) then Some n else None) else fl)"
  obtain c where ld: "load_next (nodes s ! pred_of s c0 k (Suc n)) n = Inr c"
    and walk: "(if c \<noteq> Some (tail s)
      then find_walk (nodes s) (tail s) n k (Some (pred_of s c0 k (Suc n))) c
      else Some (Inr (Some (pred_of s c0 k (Suc n)), c)))
     = Some (Inr (Some (pred_of s c0 k n), Some (succ_of s c0 k n)))"
    using find_level_step[OF inv n, of k] by blast
  have step: "find_levels (nodes s) (tail s) k (Suc n) (Some (pred_of s c0 k (Suc n))) fl preds succs
     = find_levels (nodes s) (tail s) k n (Some (pred_of s c0 k n)) fl'
         (preds[n := Some (pred_of s c0 k n)]) (succs[n := Some (succ_of s c0 k n)])"
    using ld walk
    by (simp add: pred_of_valid[OF inv] succ_of_valid[OF inv] fl'_def del: if_split cong: if_cong)
  obtain preds' succs' where
    r: "find_levels (nodes s) (tail s) k n (Some (pred_of s c0 k n)) fl'
         (preds[n := Some (pred_of s c0 k n)]) (succs[n := Some (succ_of s c0 k n)]) =
        Some (Inr ((case fl' of Some x \<Rightarrow> Some x
                    | None \<Rightarrow> found_lvl (\<lambda>l. k = key (nodes s ! succ_of s c0 k l)) n),
                   preds', succs'))"
    and len: "length preds' = MAX_LEVEL" "length succs' = MAX_LEVEL"
    and ps: "\<forall>l. preds' ! l = (if l < n then Some (pred_of s c0 k l) else (preds[n := Some (pred_of s c0 k n)]) ! l)"
    and ss: "\<forall>l. succs' ! l = (if l < n then Some (succ_of s c0 k l) else (succs[n := Some (succ_of s c0 k n)]) ! l)"
    using Suc.IH[of "preds[n := Some (pred_of s c0 k n)]" "succs[n := Some (succ_of s c0 k n)]" fl']
      Suc.prems by auto
  have fl: "(case fl' of Some x \<Rightarrow> Some x
                    | None \<Rightarrow> found_lvl (\<lambda>l. k = key (nodes s ! succ_of s c0 k l)) n)
     = (case fl of Some x \<Rightarrow> Some x
                    | None \<Rightarrow> found_lvl (\<lambda>l. k = key (nodes s ! succ_of s c0 k l)) (Suc n))"
    by (simp add: fl'_def split: option.splits)
  have ps': "\<forall>l. preds' ! l = (if l < Suc n then Some (pred_of s c0 k l) else preds ! l)"
    using ps Suc.prems n by (auto simp: less_Suc_eq)
  have ss': "\<forall>l. succs' ! l = (if l < Suc n then Some (succ_of s c0 k l) else succs ! l)"
    using ss Suc.prems n by (auto simp: less_Suc_eq)
  show ?case
    unfolding step r fl using len ps' ss' by blast
qed

lemma level_nodes_MAX: "sl_inv s c0 \<Longrightarrow> level_nodes (nodes s) MAX_LEVEL c0 = []"
  by (auto simp: level_nodes_def filter_empty_conv dest: sl_inv_node)

lemma pred_of_MAX: "sl_inv s c0 \<Longrightarrow> pred_of s c0 k MAX_LEVEL = head s"
  by (simp add: pred_of_def lo_def level_nodes_MAX)

theorem find_sl_inv:
  assumes inv: "sl_inv s c0"
  shows "find_sl s k = Some (Inr (found_lvl (\<lambda>l. k = key (nodes s ! succ_of s c0 k l)) MAX_LEVEL,
     map (\<lambda>l. Some (pred_of s c0 k l)) [0..<MAX_LEVEL],
     map (\<lambda>l. Some (succ_of s c0 k l)) [0..<MAX_LEVEL]))"
proof -
  obtain preds' succs' where
    r: "find_sl s k = Some (Inr (found_lvl (\<lambda>l. k = key (nodes s ! succ_of s c0 k l)) MAX_LEVEL, preds', succs'))"
    and len: "length preds' = MAX_LEVEL" "length succs' = MAX_LEVEL"
    and ps: "\<forall>l. preds' ! l = (if l < MAX_LEVEL then Some (pred_of s c0 k l) else replicate MAX_LEVEL None ! l)"
    and ss: "\<forall>l. succs' ! l = (if l < MAX_LEVEL then Some (succ_of s c0 k l) else replicate MAX_LEVEL None ! l)"
    using find_levels_inv[OF inv, of MAX_LEVEL "replicate MAX_LEVEL None" "replicate MAX_LEVEL None" k None]
    unfolding find_sl_def pred_of_MAX[OF inv] by auto
  have "preds' = map (\<lambda>l. Some (pred_of s c0 k l)) [0..<MAX_LEVEL]"
    using len ps by (intro nth_equalityI) auto
  moreover have "succs' = map (\<lambda>l. Some (succ_of s c0 k l)) [0..<MAX_LEVEL]"
    using len ss by (intro nth_equalityI) auto
  ultimately show ?thesis using r by simp
qed

lemma sorted_takeWhile_filter_gen:
  "sorted_wrt (<) (map f xs) \<Longrightarrow> (\<forall>x y. f x < f y \<longrightarrow> P (f y) \<longrightarrow> P (f x)) \<Longrightarrow>
     takeWhile (\<lambda>a. P (f a)) xs = filter (\<lambda>a. P (f a)) xs"
proof (induction xs)
  case Nil
  then show ?case by simp
next
  case (Cons x xs)
  show ?case
  proof (cases "P (f x)")
    case True
    with Cons show ?thesis by simp
  next
    case False
    have "\<forall>y \<in> set xs. \<not> P (f y)" using Cons.prems False by fastforce
    then have "filter (\<lambda>a. P (f a)) xs = []" by (simp add: filter_empty_conv)
    with False show ?thesis by simp
  qed
qed

lemma query_walk_tail: "query_walk h t ctxErr goToEnd e (Some t) acc = Some (Inr (Inr acc))"
  by (subst query_walk.simps) simp

lemma query_walk_path:
  assumes "lpath h 0 b bs t" "t \<notin> set (b # bs)"
    "\<forall>a \<in> set (b # bs). fullyLinked (h ! a) \<and> \<not> marked (h ! a) \<and> val (h ! a) \<noteq> None"
  shows "query_walk h t None goToEnd e (Some b) acc =
     Some (Inr (Inr (acc @ map (\<lambda>a. the (val (h ! a)))
        (takeWhile (\<lambda>a. goToEnd \<or> key (h ! a) \<le> e) (b # bs)))))"
  using assms
proof (induction bs arbitrary: b acc)
  case Nil
  then have b: "b < length h" and n: "nxt h 0 b = Some t" by (auto dest: nxt_Some)
  show ?case using Nil.prems
    by (subst query_walk.simps) (auto simp: b load_next_nxt[OF n] query_walk_tail not_less)
next
  case (Cons c cs)
  then have b: "b < length h" and n: "nxt h 0 b = Some c" and p: "lpath h 0 c cs t"
    by (auto dest: nxt_Some)
  obtain v where v: "val (h ! b) = Some v" using Cons.prems by auto
  show ?case
  proof (cases "goToEnd \<or> key (h ! b) \<le> e")
    case False
    then show ?thesis using Cons.prems by (subst query_walk.simps) (auto simp: b not_less)
  next
    case True
    have "query_walk h t None goToEnd e (Some b) acc =
          query_walk h t None goToEnd e (Some c) (acc @ [v])"
      using Cons.prems True
      by (subst query_walk.simps) (auto simp: b load_next_nxt[OF n] v not_less)
    also have "\<dots> = Some (Inr (Inr ((acc @ [v]) @ map (\<lambda>a. the (val (h ! a)))
        (takeWhile (\<lambda>a. goToEnd \<or> key (h ! a) \<le> e) (c # cs)))))"
      using Cons.prems by (intro Cons.IH[OF p]) auto
    finally show ?thesis using True v by simp
  qed
qed

lemma query_walk_chain:
  assumes inv: "sl_inv s c0" and p: "lpath (nodes s) 0 a bs (tail s)" and sub: "set bs \<subseteq> set c0"
    and sorted: "sorted_wrt (<) (map (\<lambda>a. key (nodes s ! a)) bs)"
    and c: "nxt (nodes s) 0 a = Some c"
  shows "query_walk (nodes s) (tail s) None (e = []) e (Some c) [] =
     Some (Inr (Inr (map (\<lambda>a. the (val (nodes s ! a)))
        (filter (\<lambda>a. e = [] \<or> key (nodes s ! a) \<le> e) bs))))"
proof (cases bs)
  case Nil
  then show ?thesis using p c by (simp add: query_walk_tail)
next
  case (Cons b bs')
  then have cb: "c = b" and pb: "lpath (nodes s) 0 b bs' (tail s)" using p c by auto
  have t: "tail s \<notin> set (b # bs')" using sub Cons inv by (auto dest: sl_inv_node)
  have nodes: "\<forall>a \<in> set (b # bs'). fullyLinked (nodes s ! a) \<and> \<not> marked (nodes s ! a) \<and> val (nodes s ! a) \<noteq> None"
    using sub Cons inv by (auto dest: sl_inv_node)
  have "takeWhile (\<lambda>a. (\<lambda>k. e = [] \<or> k \<le> e) (key (nodes s ! a))) bs =
        filter (\<lambda>a. (\<lambda>k. e = [] \<or> k \<le> e) (key (nodes s ! a))) bs"
    by (rule sorted_takeWhile_filter_gen[OF sorted]) auto
  then show ?thesis
    using query_walk_path[OF pb t nodes, of "e = []" e "[]"] Cons cb by simp
qed

lemma path_suffix:
  "lpath h l a (xs @ ys) t \<Longrightarrow> lpath h l (if xs = [] then a else last xs) ys t"
  by (induction xs arbitrary: a) auto

lemma path_first: "lpath h l a bs t \<Longrightarrow> nxt h l a = Some (if bs = [] then t else hd bs)"
  by (cases bs) auto

lemma level_nodes_0 [simp]: "level_nodes h 0 c0 = c0"
  by (simp add: level_nodes_def)

lemma pred_succ_link:
  assumes inv: "sl_inv s c0" and l: "l < MAX_LEVEL"
  shows "lpath (nodes s) l (pred_of s c0 k l) (hi (nodes s) c0 k l) (tail s)"
    and "nxt (nodes s) l (pred_of s c0 k l) = Some (succ_of s c0 k l)"
proof -
  have "lpath (nodes s) l (head s) (lo (nodes s) c0 k l @ hi (nodes s) c0 k l) (tail s)"
    using sl_inv_path[OF inv l] level_lo_hi[OF inv, of l k] by simp
  then show p: "lpath (nodes s) l (pred_of s c0 k l) (hi (nodes s) c0 k l) (tail s)"
    unfolding pred_of_def by (rule path_suffix)
  show "nxt (nodes s) l (pred_of s c0 k l) = Some (succ_of s c0 k l)"
    using path_first[OF p] by (simp add: succ_of_def)
qed

lemma MAX_LEVEL_pos: "0 < MAX_LEVEL"
  by (simp add: MAX_LEVEL_def)

lemma Query_inv:
  assumes inv: "sl_inv s c0"
  shows "Query s None start end =
           Some (Inr (Inr (map snd (filter (\<lambda>(k, v). in_range start end k) (entries s c0)))))"
proof -
  define h where "h = nodes s"
  have sorted: "sorted_wrt (<) (map (\<lambda>a. key (h ! a)) c0)"
    using inv by (simp add: sl_inv_def Let_def h_def)
  have res: "map snd (filter (\<lambda>(k, v). in_range start end k) (entries s c0)) =
     map (\<lambda>a. the (val (h ! a))) (filter (\<lambda>a. in_range start end (key (h ! a))) c0)"
    by (simp add: entries_def filter_map comp_def h_def)
  have walk: "\<exists>c. (if start = []
             then (case node_at (nodes s) (Some (head s)) of
                     Inl p \<Rightarrow> Some (Inl p)
                   | Inr hn \<Rightarrow> Some (load_next hn 0))
             else (case find_sl s start of
                     None \<Rightarrow> None
                   | Some (Inl p) \<Rightarrow> Some (Inl p)
                   | Some (Inr (foundLevel, preds, succs)) \<Rightarrow> Some (index succs 0)))
           = Some (Inr c) \<and>
       query_walk (nodes s) (tail s) None (end = []) end c []
     = Some (Inr (Inr (map (\<lambda>a. the (val (h ! a))) (filter (\<lambda>a. in_range start end (key (h ! a))) c0))))"
  proof (cases "start = []")
    case True
    have p: "lpath (nodes s) 0 (head s) c0 (tail s)"
      using sl_inv_path[OF inv MAX_LEVEL_pos] by simp
    obtain c where c: "nxt (nodes s) 0 (head s) = Some c" using path_first[OF p] by blast
    have "query_walk (nodes s) (tail s) None (end = []) end (Some c) [] =
       Some (Inr (Inr (map (\<lambda>a. the (val (nodes s ! a)))
        (filter (\<lambda>a. end = [] \<or> key (nodes s ! a) \<le> end) c0))))"
      using sorted by (intro query_walk_chain[OF inv p _ _ c]) (simp_all add: h_def)
    then show ?thesis
      using True by (simp add: sl_inv_head_valid[OF inv] load_next_nxt[OF c] in_range_def h_def)
  next
    case False
    have p: "lpath (nodes s) 0 (pred_of s c0 start 0) (hi (nodes s) c0 start 0) (tail s)"
      and c: "nxt (nodes s) 0 (pred_of s c0 start 0) = Some (succ_of s c0 start 0)"
      using pred_succ_link[OF inv MAX_LEVEL_pos] by auto
    have hi0: "hi (nodes s) c0 start 0 = filter (\<lambda>a. \<not> key (nodes s ! a) < start) c0"
      by (simp add: hi_def)
    have "query_walk (nodes s) (tail s) None (end = []) end (Some (succ_of s c0 start 0)) [] =
       Some (Inr (Inr (map (\<lambda>a. the (val (nodes s ! a)))
        (filter (\<lambda>a. end = [] \<or> key (nodes s ! a) \<le> end) (hi (nodes s) c0 start 0)))))"
      using sorted by (intro query_walk_chain[OF inv p _ _ c]) (auto simp: hi0 h_def sorted_wrt_map sorted_wrt_filter)
    moreover have "index (map (\<lambda>l. Some (succ_of s c0 start l)) [0..<MAX_LEVEL]) 0 = Inr (Some (succ_of s c0 start 0))"
      using MAX_LEVEL_pos by (simp add: index_def)
    moreover have "filter (\<lambda>a. end = [] \<or> key (nodes s ! a) \<le> end) (hi (nodes s) c0 start 0)
        = filter (\<lambda>a. in_range start end (key (h ! a))) c0"
      using False by (auto simp: hi0 in_range_def h_def not_less intro: filter_cong)
    ultimately show ?thesis
      using False by (simp add: find_sl_inv[OF inv] h_def)
  qed
  then obtain c where
    c1: "(if start = []
             then (case node_at (nodes s) (Some (head s)) of
                     Inl p \<Rightarrow> Some (Inl p)
                   | Inr hn \<Rightarrow> Some (load_next hn 0))
             else (case find_sl s start of
                     None \<Rightarrow> None
                   | Some (Inl p) \<Rightarrow> Some (Inl p)
                   | Some (Inr (foundLevel, preds, succs)) \<Rightarrow> Some (index succs 0)))
           = Some (Inr c)"
    and c2: "query_walk (nodes s) (tail s) None (end = []) end c []
     = Some (Inr (Inr (map (\<lambda>a. the (val (h ! a))) (filter (\<lambda>a. in_range start end (key (h ! a))) c0))))"
    by blast
  show ?thesis
    unfolding res
    by (subst Query.simps) (simp only: Let_def c1 c2 option.case sum.case, simp)
qed

text \<open>
  Claim C7 (\<^verbatim>\<open>Query\<close> returns the values of the keys in the range, in ascending key order).
  On a well-formed index, whose nodes in key order are \<open>c0\<close>, a query that is not cancelled
  returns the values of exactly the entries whose key \<open>k\<close> satisfies \<open>start \<le> k \<le> end\<close>,
  where an empty \<open>start\<close> or \<open>end\<close> leaves that side open (\<open>in_range\<close>), in the order of
  the entries, which is ascending in the key. For \<open>start > end\<close>, both non-empty, no key is
  in the range, so the result is the empty list.
\<close>

theorem Query_range:
  assumes inv: "sl_inv s c0"
  shows "Query s None start end =
           Some (Inr (Inr (map snd (filter (\<lambda>(k, v). in_range start end k) (entries s c0)))))
         \<and> sorted_wrt (<) (map fst (entries s c0))"
  using Query_inv[OF inv] inv by (simp add: entries_def comp_def sl_inv_def Let_def)


lemma example_index_reachable:
  "example_index =
     after (Upsert (after (Upsert (after (Upsert NewSkipList ''b'' (\<lambda>k c. Inr 2) (\<lambda>i. 1)))
        ''a'' (\<lambda>k c. Inr 1) (\<lambda>i. 3))) ''c'' (\<lambda>k c. Inr 3) (\<lambda>i. 2))"
  by code_simp

lemma example_index_inv: "sl_inv example_index [3, 2, 4]"
  by code_simp

theorem Query_range_witness:
  "sl_inv example_index [3, 2, 4] \<and>
   Query example_index None ''b'' ''c'' = Some (Inr (Inr [2, 3])) \<and>
   Query example_index None [] ''b'' = Some (Inr (Inr [1, 2])) \<and>
   Query example_index None ''z'' ''a'' = Some (Inr (Inr []))"
proof -
  have i: "sl_inv example_index [3, 2, 4]" by code_simp
  have e: "entries example_index [3, 2, 4] = [(''a'', 1), (''b'', 2), (''c'', 3)]" by code_simp
  show ?thesis
    using i Query_range[OF i, of "''b''" "''c''"] Query_range[OF i, of "[]" "''b''"]
      Query_range[OF i, of "''z''" "''a''"]
    by (simp add: e in_range_def)
qed

lemma sl_inv_sorted: "sl_inv s c0 \<Longrightarrow> sorted_wrt (<) (map (\<lambda>a. key (nodes s ! a)) c0)"
  by (simp add: sl_inv_def Let_def)

lemma sl_inv_key_inj:
  assumes "sl_inv s c0" "a \<in> set c0" "b \<in> set c0" "key (nodes s ! a) = key (nodes s ! b)"
  shows "a = b"
proof -
  have "distinct (map (\<lambda>a. key (nodes s ! a)) c0)"
    using sl_inv_sorted[OF assms(1)] strict_sorted_iff by blast
  then have "inj_on (\<lambda>a. key (nodes s ! a)) (set c0)" by (simp add: distinct_map)
  then show ?thesis using assms(2-4) by (auto dest: inj_onD)
qed

lemma sorted_hd_filter:
  "sorted_wrt (<) (map f xs) \<Longrightarrow> a \<in> set xs \<Longrightarrow> f a = (k::'b::linorder) \<Longrightarrow>
     filter (\<lambda>x. \<not> f x < k) xs \<noteq> [] \<and> hd (filter (\<lambda>x. \<not> f x < k) xs) = a"
proof (induction xs)
  case Nil
  then show ?case by simp
next
  case (Cons x xs)
  show ?case
  proof (cases "x = a")
    case True
    then show ?thesis using Cons.prems by simp
  next
    case False
    then have "a \<in> set xs" using Cons.prems by simp
    moreover have "f x < k" using Cons.prems \<open>a \<in> set xs\<close> by auto
    ultimately show ?thesis using Cons by simp
  qed
qed

lemma succ_of_present:
  assumes inv: "sl_inv s c0" and a: "a \<in> set c0" and k: "key (nodes s ! a) = k"
    and l: "l \<le> topLevel (nodes s ! a)"
  shows "succ_of s c0 k l = a"
proof -
  have "a \<in> set (level_nodes (nodes s) l c0)" using a l by (simp add: level_nodes_def)
  then show ?thesis
    using sorted_hd_filter[OF sl_inv_sorted_level[OF inv, of l], of a k] k
    by (simp add: succ_of_def hi_def)
qed

lemma succ_of_key:
  assumes inv: "sl_inv s c0" and k: "k \<noteq> []" and m: "k = key (nodes s ! succ_of s c0 k l)"
  shows "succ_of s c0 k l \<in> set c0 \<and> l \<le> topLevel (nodes s ! succ_of s c0 k l)"
proof (cases "hi (nodes s) c0 k l = []")
  case True
  then have "succ_of s c0 k l = tail s" by (simp add: succ_of_def)
  then show ?thesis using m k inv by (simp add: sl_inv_def Let_def)
next
  case False
  then have "hd (hi (nodes s) c0 k l) \<in> set (hi (nodes s) c0 k l)" by simp
  then have "succ_of s c0 k l \<in> set (hi (nodes s) c0 k l)" using False by (simp add: succ_of_def)
  then show ?thesis by (simp add: hi_def level_nodes_def)
qed

lemma found_lvl_cong: "(\<And>l. l < n \<Longrightarrow> m l = m' l) \<Longrightarrow> found_lvl m n = found_lvl m' n"
  by (induction n) auto

lemma found_lvl_le: "T < n \<Longrightarrow> found_lvl (\<lambda>l. l \<le> T) n = Some T"
  by (induction n) (auto simp: less_Suc_eq)

lemma found_lvl_False: "found_lvl (\<lambda>l. False) n = None"
  by (induction n) auto

lemma lookup_addr_Some:
  "lookup_addr s c0 k = Some a \<Longrightarrow> a \<in> set c0 \<and> key (nodes s ! a) = k"
  by (auto simp: lookup_addr_def find_Some_iff)

lemma lookup_addr_None:
  "lookup_addr s c0 k = None \<Longrightarrow> \<forall>a \<in> set c0. key (nodes s ! a) \<noteq> k"
  by (auto simp: lookup_addr_def find_None_iff)

lemma found_present:
  assumes inv: "sl_inv s c0" and k: "k \<noteq> []" and a: "lookup_addr s c0 k = Some a"
  shows "found_lvl (\<lambda>l. k = key (nodes s ! succ_of s c0 k l)) MAX_LEVEL = Some (topLevel (nodes s ! a))"
proof -
  have ain: "a \<in> set c0" and ak: "key (nodes s ! a) = k" using lookup_addr_Some[OF a] by auto
  have "\<And>l. (k = key (nodes s ! succ_of s c0 k l)) = (l \<le> topLevel (nodes s ! a))"
  proof
    fix l assume m: "k = key (nodes s ! succ_of s c0 k l)"
    then have "succ_of s c0 k l \<in> set c0" and t: "l \<le> topLevel (nodes s ! succ_of s c0 k l)"
      using succ_of_key[OF inv k] by auto
    then have "succ_of s c0 k l = a" using sl_inv_key_inj[OF inv _ ain] m ak by simp
    then show "l \<le> topLevel (nodes s ! a)" using t by simp
  next
    fix l assume "l \<le> topLevel (nodes s ! a)"
    then show "k = key (nodes s ! succ_of s c0 k l)"
      using succ_of_present[OF inv ain ak] ak by simp
  qed
  then have "found_lvl (\<lambda>l. k = key (nodes s ! succ_of s c0 k l)) MAX_LEVEL
       = found_lvl (\<lambda>l. l \<le> topLevel (nodes s ! a)) MAX_LEVEL" by simp
  then show ?thesis using found_lvl_le sl_inv_node[OF inv ain] by simp
qed

lemma found_absent:
  assumes inv: "sl_inv s c0" and k: "k \<noteq> []" and a: "lookup_addr s c0 k = None"
  shows "found_lvl (\<lambda>l. k = key (nodes s ! succ_of s c0 k l)) MAX_LEVEL = None"
proof -
  have "k \<noteq> key (nodes s ! succ_of s c0 k l)" for l
    using succ_of_key[OF inv k, of l] lookup_addr_None[OF a] by metis
  then have "(\<lambda>l. k = key (nodes s ! succ_of s c0 k l)) = (\<lambda>l. False)" by simp
  then show ?thesis by (simp only: found_lvl_False)
qed

lemma index_map_upt: "l < n \<Longrightarrow> index (map f [0..<n]) l = Inr (f l)"
  by (simp add: index_def)

lemma index_map_upt_out: "\<not> l < n \<Longrightarrow> index (map f [0..<n]) l = Inl IndexOutOfRange"
  by (simp add: index_def)

lemma Find_inv:
  assumes inv: "sl_inv s c0" and k: "k \<noteq> []"
  shows "Find s k = Some (Inr (map_of (entries s c0) k))"
proof (cases "lookup_addr s c0 k")
  case None
  have "k \<notin> fst ` set (entries s c0)"
    using lookup_addr_None[OF None] by (auto simp: entries_def)
  then have "map_of (entries s c0) k = None" by (simp add: map_of_eq_None_iff)
  then show ?thesis
    by (simp add: Find_def find_sl_inv[OF inv] found_absent[OF inv k None])
next
  case (Some a)
  then have ain: "a \<in> set c0" and ak: "key (nodes s ! a) = k" using lookup_addr_Some by auto
  obtain v where v: "val (nodes s ! a) = Some v" using sl_inv_node[OF inv ain] by auto
  have "distinct (map fst (entries s c0))"
    using sl_inv_sorted[OF inv] strict_sorted_iff by (auto simp: entries_def comp_def)
  moreover have "(k, v) \<in> set (entries s c0)" using ain ak v by (force simp: entries_def)
  ultimately have "map_of (entries s c0) k = Some v" by simp
  then show ?thesis
    using sl_inv_node[OF inv ain] v ak
    by (simp add: Find_def find_sl_inv[OF inv] found_present[OF inv k Some] index_map_upt
         succ_of_present[OF inv ain ak])
qed

lemma Upsert_update:
  assumes inv: "sl_inv s c0" and k: "k \<noteq> []" and a: "lookup_addr s c0 k = Some a"
  shows "Upsert s k check rnd =
     (case check k (val (nodes s ! a)) of
        Inl err \<Rightarrow> Some (Inr (s, False, Some err))
      | Inr newValue \<Rightarrow> Some (Inr (s\<lparr>nodes := store_val (nodes s) a newValue\<rparr>, True, None)))"
proof -
  have ain: "a \<in> set c0" and ak: "key (nodes s ! a) = k" using lookup_addr_Some[OF a] by auto
  obtain v where v: "val (nodes s ! a) = Some v" using sl_inv_node[OF inv ain] by auto
  show ?thesis
    using sl_inv_node[OF inv ain] v
    by (subst Upsert.simps)
       (simp add: find_sl_inv[OF inv] found_present[OF inv k a] index_map_upt
         succ_of_present[OF inv ain ak] split: sum.splits)
qed

lemma same_shape_refl: "same_shape h h"
  by (simp add: same_shape_def)

lemma same_shape_trans: "same_shape h h1 \<Longrightarrow> same_shape h1 h2 \<Longrightarrow> same_shape h h2"
  unfolding same_shape_def
  by (metis (no_types, lifting) node.surjective node.update_convs(6))

lemma same_shape_fields:
  "same_shape h h' \<Longrightarrow> a < length h \<Longrightarrow>
     key (h' ! a) = key (h ! a) \<and> val (h' ! a) = val (h ! a) \<and> topLevel (h' ! a) = topLevel (h ! a) \<and>
     marked (h' ! a) = marked (h ! a) \<and> fullyLinked (h' ! a) = fullyLinked (h ! a) \<and>
     length (nexts (h' ! a)) = length (nexts (h ! a))"
  unfolding same_shape_def
  by (metis (no_types, lifting) node.select_convs(1-5) node.surjective node.update_convs(6))

lemma nxt_store:
  "a' < length h \<Longrightarrow> l' < length (nexts (h ! a')) \<Longrightarrow>
     nxt (h[a' := (h ! a')\<lparr>nexts := (nexts (h ! a'))[l' := q]\<rparr>]) l a =
       (if a = a' \<and> l = l' then q else nxt h l a)"
  by (auto simp: nxt_def nth_list_update)

lemma store_next_ok:
  "a' < length h \<Longrightarrow> l' < length (nexts (h ! a')) \<Longrightarrow>
     store_next h (Some a') l' q = Inr (h[a' := (h ! a')\<lparr>nexts := (nexts (h ! a'))[l' := q]\<rparr>])"
  by (simp add: store_next_def)

lemma same_shape_store:
  "a' < length h \<Longrightarrow> same_shape h (h[a' := (h ! a')\<lparr>nexts := (nexts (h ! a'))[l' := q]\<rparr>])"
  by (auto simp: same_shape_def nth_list_update)

lemma link_levels_ok:
  assumes T: "T < MAX_LEVEL"
  shows "j \<le> Suc T \<Longrightarrow> new < length h \<Longrightarrow> T < length (nexts (h ! new)) \<Longrightarrow>
     (\<forall>l. j \<le> l \<and> l \<le> T \<longrightarrow> P l < length h \<and> P l \<noteq> new \<and> l < length (nexts (h ! P l))) \<Longrightarrow>
     \<exists>h'. link_levels h (map (\<lambda>l. Some (P l)) [0..<MAX_LEVEL]) (map (\<lambda>l. Some (S l)) [0..<MAX_LEVEL]) new T j = Inr h' \<and>
        same_shape h h' \<and>
        (\<forall>l a. nxt h' l a = (if j \<le> l \<and> l \<le> T \<and> a = P l then Some new
                             else if j \<le> l \<and> l \<le> T \<and> a = new then Some (S l)
                             else nxt h l a))"
proof (induction "Suc T - j" arbitrary: j h)
  case 0
  then have "\<not> j \<le> T" by simp
  then show ?case
    by (subst link_levels.simps) (auto simp: same_shape_refl)
next
  case (Suc n)
  then have jT: "j \<le> T" and jM: "j < MAX_LEVEL" using T by auto
  define h1 where "h1 = h[P j := (h ! P j)\<lparr>nexts := (nexts (h ! P j))[j := Some new]\<rparr>]"
  define h2 where "h2 = h1[new := (h1 ! new)\<lparr>nexts := (nexts (h1 ! new))[j := Some (S j)]\<rparr>]"
  have Pj: "P j < length h" "P j \<noteq> new" "j < length (nexts (h ! P j))"
    using Suc.prems jT by auto
  have s1: "same_shape h h1" unfolding h1_def by (rule same_shape_store[OF Pj(1)])
  have new1: "new < length h1" "j < length (nexts (h1 ! new))"
    using Suc.prems Pj jT by (auto simp: h1_def)
  have s12: "same_shape h1 h2" unfolding h2_def by (rule same_shape_store[OF new1(1)])
  have s2: "same_shape h h2" using s1 s12 by (rule same_shape_trans)
  have st1: "store_next h (Some (P j)) j (Some new) = Inr h1"
    unfolding h1_def by (rule store_next_ok[OF Pj(1) Pj(3)])
  have st2: "store_next h1 (Some new) j (Some (S j)) = Inr h2"
    unfolding h2_def by (rule store_next_ok[OF new1])
  have step: "link_levels h (map (\<lambda>l. Some (P l)) [0..<MAX_LEVEL]) (map (\<lambda>l. Some (S l)) [0..<MAX_LEVEL]) new T j
      = link_levels h2 (map (\<lambda>l. Some (P l)) [0..<MAX_LEVEL]) (map (\<lambda>l. Some (S l)) [0..<MAX_LEVEL]) new T (Suc j)"
    by (subst link_levels.simps) (simp add: jT index_map_upt[OF jM] st1 st2)
  have n2: "nxt h2 l a = (if l = j \<and> a = new then Some (S j)
                          else if l = j \<and> a = P j then Some new else nxt h l a)" for l a
    unfolding h2_def h1_def[symmetric]
    by (subst nxt_store[OF new1]) (auto simp: h1_def nxt_store[OF Pj(1) Pj(3)])
  have pre: "\<forall>l. Suc j \<le> l \<and> l \<le> T \<longrightarrow> P l < length h2 \<and> P l \<noteq> new \<and> l < length (nexts (h2 ! P l))"
    using Suc.prems(4) s2 same_shape_fields[OF s2] by (auto simp: same_shape_def)
  have "new < length h2" "T < length (nexts (h2 ! new))"
    using Suc.prems s2 same_shape_fields[OF s2] by (auto simp: same_shape_def)
  moreover have nn: "n = Suc T - Suc j" using Suc.hyps(2) by simp
  ultimately obtain h' where
    r: "link_levels h2 (map (\<lambda>l. Some (P l)) [0..<MAX_LEVEL]) (map (\<lambda>l. Some (S l)) [0..<MAX_LEVEL]) new T (Suc j) = Inr h'"
    and s': "same_shape h2 h'"
    and n': "\<forall>l a. nxt h' l a = (if Suc j \<le> l \<and> l \<le> T \<and> a = P l then Some new
                             else if Suc j \<le> l \<and> l \<le> T \<and> a = new then Some (S l)
                             else nxt h2 l a)"
    using Suc.hyps(1)[of "Suc j" h2] jT pre by auto
  have "nxt h' l a = (if j \<le> l \<and> l \<le> T \<and> a = P l then Some new
                             else if j \<le> l \<and> l \<le> T \<and> a = new then Some (S l)
                             else nxt h l a)" for l a
  proof (cases "l = j")
    case True
    then show ?thesis using n'[rule_format, of l a] n2[of l a] jT Pj(2) by auto
  next
    case False
    then have "(j \<le> l) = (Suc j \<le> l)" by auto
    then show ?thesis using n'[rule_format, of l a] n2[of l a] False by simp
  qed
  then show ?case
    using step r same_shape_trans[OF s2 s'] by simp
qed

lemma path_cong:
  "(\<forall>a \<in> set (a0 # bs). nxt h' l a = nxt h l a) \<Longrightarrow> lpath h' l a0 bs t = lpath h l a0 bs t"
  by (induction bs arbitrary: a0) auto

lemma path_prefix:
  "lpath h l a (xs @ ys) t \<Longrightarrow> lpath h l a xs (if ys = [] then t else hd ys)"
proof (induction xs arbitrary: a)
  case Nil
  then show ?case using path_first[of h l a ys t] by simp
next
  case (Cons x xs)
  then show ?case by simp
qed

lemma path_redirect:
  "lpath h l a xs b \<Longrightarrow> distinct (a # xs) \<Longrightarrow>
   (\<forall>x \<in> set (a # xs). x \<noteq> last (a # xs) \<longrightarrow> nxt h' l x = nxt h l x) \<Longrightarrow>
   nxt h' l (last (a # xs)) = Some b' \<Longrightarrow> lpath h' l a xs b'"
proof (induction xs arbitrary: a)
  case Nil
  then show ?case by simp
next
  case (Cons x xs)
  have "a \<noteq> last (a # x # xs)" using Cons.prems(2) by auto
  then have "nxt h' l a = Some x" using Cons.prems by auto
  moreover have "lpath h' l x xs b'"
    using Cons.prems by (intro Cons.IH) auto
  ultimately show ?case by simp
qed

lemma sl_inv_distinct: "sl_inv s c0 \<Longrightarrow> distinct c0"
proof -
  assume "sl_inv s c0"
  then have "distinct (map (\<lambda>a. key (nodes s ! a)) c0)"
    using sl_inv_sorted strict_sorted_iff by blast
  then show ?thesis by (simp add: distinct_map)
qed

lemma pred_of_last: "pred_of s c0 k l = last (head s # lo (nodes s) c0 k l)"
  by (simp add: pred_of_def)

lemma lo_level: "lo h c0 k l = filter (\<lambda>a. l \<le> topLevel (h ! a)) (lo h c0 k 0)"
  by (auto simp: lo_def level_nodes_def intro: filter_cong)

lemma hi_level: "hi h c0 k l = filter (\<lambda>a. l \<le> topLevel (h ! a)) (hi h c0 k 0)"
  by (auto simp: hi_def level_nodes_def intro: filter_cong)

lemma lo_hi_disjoint: "set (lo h c0 k l) \<inter> set (hi h c0 k l') = {}"
  by (auto simp: lo_def hi_def)

lemma insert_preserves_inv:
  fixes s :: "'v skiplist" and h' :: "'v node list"
  defines "h \<equiv> nodes s" and "new \<equiv> length (nodes s)"
  assumes inv: "sl_inv s c0" and T: "T < MAX_LEVEL"
    and absent: "\<forall>a \<in> set c0. key (h ! a) \<noteq> k"
    and len: "length h' = Suc (length h)"
    and old: "\<forall>a < length h. key (h' ! a) = key (h ! a) \<and> val (h' ! a) = val (h ! a) \<and>
        topLevel (h' ! a) = topLevel (h ! a) \<and> marked (h' ! a) = marked (h ! a) \<and>
        fullyLinked (h' ! a) = fullyLinked (h ! a) \<and>
        length (nexts (h' ! a)) = length (nexts (h ! a))"
    and newn: "key (h' ! new) = k" "val (h' ! new) \<noteq> None" "topLevel (h' ! new) = T"
        "\<not> marked (h' ! new)" "fullyLinked (h' ! new)" "length (nexts (h' ! new)) = Suc T"
    and nx: "\<forall>l a. a < length h \<longrightarrow> nxt h' l a =
        (if l \<le> T \<and> a = pred_of s c0 k l then Some new else nxt h l a)"
    and nxnew: "\<forall>l. l \<le> T \<longrightarrow> nxt h' l new = Some (succ_of s c0 k l)"
  shows "sl_inv (s\<lparr>nodes := h', count := c\<rparr>) (insert_chain s c0 k)"
proof -
  define L where "L = lo h c0 k 0"
  define H where "H = hi h c0 k 0"
  have c0: "c0 = L @ H" using level_lo_hi[OF inv, of 0 k] by (simp add: L_def H_def h_def)
  have sub: "set L \<subseteq> set c0" "set H \<subseteq> set c0" using c0 by auto
  have valid: "\<forall>a \<in> set c0. a < length h" using sl_inv_node[OF inv] by (auto simp: h_def)
  have hv: "head s < length h" "tail s < length h" "head s \<noteq> tail s"
    "head s \<notin> set c0" "tail s \<notin> set c0"
    using inv by (auto simp: sl_inv_def Let_def h_def)
  have new_notin: "new \<notin> set c0" "new \<noteq> head s" "new \<noteq> tail s"
    using valid hv by (auto simp: new_def h_def)
  have chain: "insert_chain s c0 k = L @ [new] @ H"
    by (simp add: insert_chain_def L_def H_def h_def new_def)
  have keyL: "\<forall>a \<in> set L. key (h ! a) < k" by (simp add: L_def lo_def)
  have keyH: "\<forall>a \<in> set H. k < key (h ! a)"
    using absent sub by (auto simp: H_def hi_def)
  have sortedL: "sorted_wrt (<) (map (\<lambda>a. key (h ! a)) L)"
    and sortedH: "sorted_wrt (<) (map (\<lambda>a. key (h ! a)) H)"
    using sl_inv_sorted[OF inv] c0 by (auto simp: sorted_wrt_append h_def)
  have key': "\<forall>a \<in> set c0. key (h' ! a) = key (h ! a)" using old valid by simp
  have eq: "map (\<lambda>a. key (h' ! a)) (L @ [new] @ H) =
        map (\<lambda>a. key (h ! a)) L @ [k] @ map (\<lambda>a. key (h ! a)) H"
    using key' sub newn(1) by auto
  have "\<forall>x \<in> set L. \<forall>y \<in> set H. key (h ! x) < key (h ! y)"
    using keyL keyH by (meson order.strict_trans)
  then have "sorted_wrt (<) (map (\<lambda>a. key (h ! a)) L @ [k] @ map (\<lambda>a. key (h ! a)) H)"
    using sortedL sortedH keyL keyH by (simp add: sorted_wrt_append)
  then have sorted': "sorted_wrt (<) (map (\<lambda>a. key (h' ! a)) (L @ [new] @ H))"
    by (simp only: eq)
  have nodes': "\<forall>a \<in> set (L @ [new] @ H). a < length h' \<and> topLevel (h' ! a) < MAX_LEVEL \<and>
         length (nexts (h' ! a)) = Suc (topLevel (h' ! a)) \<and>
         fullyLinked (h' ! a) \<and> \<not> marked (h' ! a) \<and> val (h' ! a) \<noteq> None"
  proof
    fix a assume "a \<in> set (L @ [new] @ H)"
    then consider "a = new" | "a \<in> set c0" using sub by auto
    then show "a < length h' \<and> topLevel (h' ! a) < MAX_LEVEL \<and>
         length (nexts (h' ! a)) = Suc (topLevel (h' ! a)) \<and>
         fullyLinked (h' ! a) \<and> \<not> marked (h' ! a) \<and> val (h' ! a) \<noteq> None"
    proof cases
      case 1
      then show ?thesis using newn T len by (simp add: new_def h_def)
    next
      case 2
      then show ?thesis using sl_inv_node[OF inv 2] old len by (simp add: h_def)
    qed
  qed
  have paths: "lpath h' l (head s) (level_nodes h' l (L @ [new] @ H)) (tail s)" if l: "l < MAX_LEVEL" for l
  proof -
    define Ll where "Ll = lo h c0 k l"
    define Hl where "Hl = hi h c0 k l"
    have top': "\<forall>a \<in> set c0. topLevel (h' ! a) = topLevel (h ! a)" using old valid by simp
    have "filter (\<lambda>a. l \<le> topLevel (h' ! a)) L = filter (\<lambda>a. l \<le> topLevel (h ! a)) L"
      using top' sub by (intro filter_cong) auto
    then have Ll: "filter (\<lambda>a. l \<le> topLevel (h' ! a)) L = Ll"
      unfolding Ll_def L_def by (subst lo_level[of h c0 k l])
    have "filter (\<lambda>a. l \<le> topLevel (h' ! a)) H = filter (\<lambda>a. l \<le> topLevel (h ! a)) H"
      using top' sub by (intro filter_cong) auto
    then have Hl: "filter (\<lambda>a. l \<le> topLevel (h' ! a)) H = Hl"
      unfolding Hl_def H_def by (subst hi_level[of h c0 k l])
    have lev: "level_nodes h' l (L @ [new] @ H) = Ll @ (if l \<le> T then [new] else []) @ Hl"
      using newn(3) by (simp add: level_nodes_def Ll Hl)
    have oldp: "lpath h l (head s) (Ll @ Hl) (tail s)"
      using sl_inv_path[OF inv l] level_lo_hi[OF inv, of l k] by (simp add: Ll_def Hl_def h_def)
    have subl: "set Ll \<subseteq> set c0" "set Hl \<subseteq> set c0"
      using lo_subset[of h c0 k l] hi_subset[of h c0 k l] by (auto simp: Ll_def Hl_def)
    show ?thesis
    proof (cases "l \<le> T")
      case False
      have "\<forall>a \<in> set (head s # Ll @ Hl). nxt h' l a = nxt h l a"
        using nx False valid subl hv by auto
      then have "lpath h' l (head s) (Ll @ Hl) (tail s)"
        using oldp path_cong by blast
      then show ?thesis using False lev by simp
    next
      case True
      have dist: "distinct (head s # Ll)"
        using sl_inv_distinct[OF inv] hv subl by (auto simp: Ll_def lo_def level_nodes_def)
      have p1: "lpath h l (head s) Ll (if Hl = [] then tail s else hd Hl)"
        using oldp by (rule path_prefix)
      have pl: "pred_of s c0 k l = last (head s # Ll)"
        by (simp add: pred_of_last Ll_def h_def)
      have "lpath h' l (head s) Ll new"
      proof (rule path_redirect[OF p1 dist])
        show "\<forall>x\<in>set (head s # Ll). x \<noteq> last (head s # Ll) \<longrightarrow> nxt h' l x = nxt h l x"
          using nx valid subl hv pl by auto
        have "last (head s # Ll) < length h"
          using pred_of_valid[OF inv, of k l] pl by (simp add: h_def)
        then show "nxt h' l (last (head s # Ll)) = Some new"
          using nx True pl by simp
      qed
      moreover have "lpath h' l new Hl (tail s)"
      proof (cases Hl)
        case Nil
        then show ?thesis using nxnew True by (simp add: succ_of_def Hl_def h_def)
      next
        case (Cons c cs)
        then have sc: "succ_of s c0 k l = c" by (simp add: succ_of_def Hl_def h_def)
        have "lpath h l c cs (tail s)" using oldp Cons by (simp add: path_append)
        moreover have "\<forall>a \<in> set (c # cs). nxt h' l a = nxt h l a"
        proof
          fix a assume a: "a \<in> set (c # cs)"
          then have ah: "a \<in> set Hl" using Cons by simp
          then have "a \<in> set c0" using subl by auto
          moreover have "a \<noteq> pred_of s c0 k l"
          proof
            assume e: "a = pred_of s c0 k l"
            then have "a = head s \<or> a \<in> set Ll"
              using pl by (cases "Ll = []") (auto simp: last_in_set)
            then show False
              using ah \<open>a \<in> set c0\<close> hv lo_hi_disjoint[of h c0 k l l] by (auto simp: Ll_def Hl_def)
          qed
          ultimately show "nxt h' l a = nxt h l a" using nx valid by simp
        qed
        ultimately have "lpath h' l c cs (tail s)" using path_cong by blast
        then show ?thesis using Cons nxnew True sc by simp
      qed
      ultimately have "lpath h' l (head s) (Ll @ new # Hl) (tail s)"
        by (simp add: path_append)
      then show ?thesis using True lev by simp
    qed
  qed
  have "head s < length h'" "tail s < length h'" using hv len by auto
  moreover have "head s \<notin> set (L @ [new] @ H)" "tail s \<notin> set (L @ [new] @ H)"
    using hv sub new_notin by auto
  moreover have "key (h' ! tail s) = []" "\<not> marked (h' ! head s)" "\<not> marked (h' ! tail s)"
    using inv old hv by (auto simp: sl_inv_def Let_def h_def)
  ultimately show ?thesis
    using hv(3) sorted' nodes' paths
    by (simp add: sl_inv_def Let_def chain del: append.simps)
qed

lemma pred_unmarked: "sl_inv s c0 \<Longrightarrow> \<not> marked (nodes s ! pred_of s c0 k l)"
  using pred_of_cases[of s c0 k l] sl_inv_node[of s c0 "pred_of s c0 k l"]
  by (auto simp: sl_inv_def Let_def)

lemma succ_unmarked: "sl_inv s c0 \<Longrightarrow> \<not> marked (nodes s ! succ_of s c0 k l)"
  using succ_of_cases[of s c0 k l] sl_inv_node[of s c0 "succ_of s c0 k l"]
  by (auto simp: sl_inv_def Let_def)

lemma validate_preds_inv:
  assumes inv: "sl_inv s c0"
  shows "j \<le> MAX_LEVEL \<Longrightarrow>
    validate_preds (nodes s) (map (\<lambda>l. Some (pred_of s c0 k l)) [0..<MAX_LEVEL])
      (map (\<lambda>l. Some (succ_of s c0 k l)) [0..<MAX_LEVEL]) T j =
    (if T < MAX_LEVEL \<or> T < j then Inr True else Inl IndexOutOfRange)"
proof (induction "MAX_LEVEL - j" arbitrary: j)
  case 0
  then have "j = MAX_LEVEL" by simp
  then show ?case
    by (subst validate_preds.simps) (auto simp: index_map_upt_out)
next
  case (Suc n)
  then have j: "j < MAX_LEVEL" by simp
  show ?case
  proof (cases "j \<le> T")
    case False
    then show ?thesis by (subst validate_preds.simps) simp
  next
    case True
    have ld: "load_next (nodes s ! pred_of s c0 k j) j = Inr (Some (succ_of s c0 k j))"
      using pred_succ_link(2)[OF inv j] by (rule load_next_nxt)
    have "validate_preds (nodes s) (map (\<lambda>l. Some (pred_of s c0 k l)) [0..<MAX_LEVEL])
      (map (\<lambda>l. Some (succ_of s c0 k l)) [0..<MAX_LEVEL]) T j =
       validate_preds (nodes s) (map (\<lambda>l. Some (pred_of s c0 k l)) [0..<MAX_LEVEL])
      (map (\<lambda>l. Some (succ_of s c0 k l)) [0..<MAX_LEVEL]) T (Suc j)"
      using True
      by (subst validate_preds.simps)
         (simp add: index_map_upt[OF j] pred_of_valid[OF inv] succ_of_valid[OF inv] ld
            pred_unmarked[OF inv] succ_unmarked[OF inv])
    also have "\<dots> = (if T < MAX_LEVEL \<or> T < Suc j then Inr True else Inl IndexOutOfRange)"
      using Suc.hyps(2) j by (intro Suc.hyps(1)) auto
    finally show ?thesis using True j by auto
  qed
qed

lemma Upsert_absent_start:
  assumes inv: "sl_inv s c0" and k: "k \<noteq> []" and a: "lookup_addr s c0 k = None"
  shows "Upsert s k check rnd =
     (if rnd 0 < MAX_LEVEL then
        (case check k None of
           Inl err \<Rightarrow> Some (Inr (s, False, Some err))
         | Inr newValue \<Rightarrow>
             (case link_levels
                (nodes s @ [\<lparr>key = k, val = Some newValue, topLevel = rnd 0, marked = False,
                   fullyLinked = False, nexts = replicate (rnd 0 + 1) None\<rparr>])
                (map (\<lambda>l. Some (pred_of s c0 k l)) [0..<MAX_LEVEL])
                (map (\<lambda>l. Some (succ_of s c0 k l)) [0..<MAX_LEVEL])
                (length (nodes s)) (rnd 0) 0 of
                Inl p \<Rightarrow> Some (Inl p)
              | Inr h \<Rightarrow> Some (Inr (s\<lparr>nodes := set_fullyLinked h (length (nodes s)),
                                       count := count s + 1\<rparr>, True, None))))
      else Some (Inl IndexOutOfRange))"
  by (subst Upsert.simps)
     (simp add: find_sl_inv[OF inv] found_absent[OF inv k a] validate_preds_inv[OF inv] Let_def
        split: sum.splits)

lemma Upsert_MAX_LEVEL_panic:
  assumes "sl_inv s c0" "k \<noteq> []" "lookup_addr s c0 k = None" "MAX_LEVEL \<le> rnd 0"
  shows "Upsert s k check rnd = Some (Inl IndexOutOfRange)"
  using assms(4) by (simp add: Upsert_absent_start[OF assms(1-3)])

lemma Upsert_insert_error:
  assumes "sl_inv s c0" "k \<noteq> []" "lookup_addr s c0 k = None" "rnd 0 < MAX_LEVEL"
    "check k None = Inl err"
  shows "Upsert s k check rnd = Some (Inr (s, False, Some err))"
  using assms(4,5) by (simp add: Upsert_absent_start[OF assms(1-3)])

lemma nth_update_node:
  "(h[a := n]) ! b = (if b = a \<and> a < length h then n else h ! b)"
  by (cases "a < length h") (auto simp: nth_list_update list_update_beyond)

lemma nxt_set_fullyLinked: "nxt (set_fullyLinked h a) l b = nxt h l b"
  by (auto simp: nxt_def set_fullyLinked_def nth_update_node)

lemma nxt_append_old: "a < length h \<Longrightarrow> nxt (h @ [n]) l a = nxt h l a"
  by (simp add: nxt_def nth_append)

lemma entries_filter:
  "filter (\<lambda>(x, v). P x) (entries s c0) =
     map (\<lambda>a. (key (nodes s ! a), the (val (nodes s ! a)))) (filter (\<lambda>a. P (key (nodes s ! a))) c0)"
  by (simp add: entries_def filter_map comp_def)

lemma Upsert_insert:
  assumes inv: "sl_inv s c0" and k: "k \<noteq> []" and a: "lookup_addr s c0 k = None"
    and T: "rnd 0 < MAX_LEVEL" and chk: "check k None = Inr nv"
  shows "\<exists>s'. Upsert s k check rnd = Some (Inr (s', True, None)) \<and>
      sl_inv s' (insert_chain s c0 k) \<and> count s' = count s + 1 \<and>
      head s' = head s \<and> tail s' = tail s \<and>
      entries s' (insert_chain s c0 k) =
        filter (\<lambda>(x, v). x < k) (entries s c0) @ [(k, nv)] @
        filter (\<lambda>(x, v). \<not> x < k) (entries s c0)"
proof -
  define h where "h = nodes s"
  define new where "new = length (nodes s)"
  define newNode :: "'a node" where "newNode = \<lparr>key = k, val = Some nv, topLevel = rnd 0, marked = False,
                   fullyLinked = False, nexts = replicate (rnd 0 + 1) None\<rparr>"
  define h1 where "h1 = h @ [newNode]"
  have pv: "pred_of s c0 k l < length h" for l using pred_of_valid[OF inv] by (simp add: h_def)
  have pre: "\<forall>l. 0 \<le> l \<and> l \<le> rnd 0 \<longrightarrow> pred_of s c0 k l < length h1 \<and> pred_of s c0 k l \<noteq> new \<and>
       l < length (nexts (h1 ! pred_of s c0 k l))"
  proof (intro allI impI)
    fix l assume "0 \<le> l \<and> l \<le> rnd 0"
    then have l: "l < MAX_LEVEL" using T by simp
    have "l < length (nexts (h ! pred_of s c0 k l))"
      using nxt_Some[OF pred_succ_link(2)[OF inv l, of k]] by (simp add: h_def)
    then show "pred_of s c0 k l < length h1 \<and> pred_of s c0 k l \<noteq> new \<and>
       l < length (nexts (h1 ! pred_of s c0 k l))"
      using pv[of l] by (simp add: h1_def new_def h_def nth_append)
  qed
  have "new < length h1" "rnd 0 < length (nexts (h1 ! new))"
    by (simp_all add: h1_def new_def h_def newNode_def)
  then obtain h' where
    lk: "link_levels h1 (map (\<lambda>l. Some (pred_of s c0 k l)) [0..<MAX_LEVEL])
           (map (\<lambda>l. Some (succ_of s c0 k l)) [0..<MAX_LEVEL]) new (rnd 0) 0 = Inr h'"
    and sh: "same_shape h1 h'"
    and nx: "\<forall>l a. nxt h' l a = (if 0 \<le> l \<and> l \<le> rnd 0 \<and> a = pred_of s c0 k l then Some new
                             else if 0 \<le> l \<and> l \<le> rnd 0 \<and> a = new then Some (succ_of s c0 k l)
                             else nxt h1 l a)"
    using link_levels_ok[OF T, of 0 new h1 "pred_of s c0 k" "succ_of s c0 k"] pre by auto
  define h2 where "h2 = set_fullyLinked h' new"
  define s' where "s' = s\<lparr>nodes := h2, count := count s + 1\<rparr>"
  have up: "Upsert s k check rnd = Some (Inr (s', True, None))"
    using T chk lk
    by (simp add: Upsert_absent_start[OF inv k a] s'_def h2_def h1_def h_def new_def newNode_def)
  have len': "length h' = Suc (length h)" using sh by (simp add: same_shape_def h1_def)
  have f2: "key (h2 ! b) = key (h' ! b) \<and> val (h2 ! b) = val (h' ! b) \<and>
        topLevel (h2 ! b) = topLevel (h' ! b) \<and> marked (h2 ! b) = marked (h' ! b) \<and>
        length (nexts (h2 ! b)) = length (nexts (h' ! b)) \<and>
        (b \<noteq> new \<longrightarrow> fullyLinked (h2 ! b) = fullyLinked (h' ! b))" for b
    by (simp add: h2_def set_fullyLinked_def nth_update_node)
  have old: "\<forall>b < length (nodes s). key (h2 ! b) = key (nodes s ! b) \<and> val (h2 ! b) = val (nodes s ! b) \<and>
        topLevel (h2 ! b) = topLevel (nodes s ! b) \<and> marked (h2 ! b) = marked (nodes s ! b) \<and>
        fullyLinked (h2 ! b) = fullyLinked (nodes s ! b) \<and>
        length (nexts (h2 ! b)) = length (nexts (nodes s ! b))"
  proof (intro allI impI)
    fix b assume b: "b < length (nodes s)"
    then have "b < length h1" "b \<noteq> new" "h1 ! b = nodes s ! b"
      by (simp_all add: h1_def h_def new_def nth_append)
    then show "key (h2 ! b) = key (nodes s ! b) \<and> val (h2 ! b) = val (nodes s ! b) \<and>
        topLevel (h2 ! b) = topLevel (nodes s ! b) \<and> marked (h2 ! b) = marked (nodes s ! b) \<and>
        fullyLinked (h2 ! b) = fullyLinked (nodes s ! b) \<and>
        length (nexts (h2 ! b)) = length (nexts (nodes s ! b))"
      using same_shape_fields[OF sh, of b] f2[of b] by simp
  qed
  have h1new: "h1 ! new = newNode" by (simp add: h1_def new_def h_def)
  have newf: "key (h2 ! new) = k" "val (h2 ! new) = Some nv" "topLevel (h2 ! new) = rnd 0"
        "\<not> marked (h2 ! new)" "length (nexts (h2 ! new)) = Suc (rnd 0)"
    using same_shape_fields[OF sh, of new] f2[of new] h1new
    by (simp_all add: h1_def new_def h_def newNode_def)
  have newfl: "fullyLinked (h2 ! new)"
    using len' by (simp add: h2_def set_fullyLinked_def new_def h_def)
  have nx2: "\<forall>l b. b < length (nodes s) \<longrightarrow> nxt h2 l b =
        (if l \<le> rnd 0 \<and> b = pred_of s c0 k l then Some (length (nodes s)) else nxt (nodes s) l b)"
    using nx by (auto simp: h2_def nxt_set_fullyLinked h1_def h_def new_def nxt_append_old)
  have pn: "pred_of s c0 k l \<noteq> new" for l using pv[of l] by (simp add: new_def h_def)
  have nxn: "\<forall>l. l \<le> rnd 0 \<longrightarrow> nxt h2 l new = Some (succ_of s c0 k l)"
    using nx pn by (metis h2_def nxt_set_fullyLinked le0)
  have len2: "length h2 = Suc (length (nodes s))"
    using len' by (simp add: h2_def set_fullyLinked_def h_def)
  have inv': "sl_inv s' (insert_chain s c0 k)"
    unfolding s'_def
    using lookup_addr_None[OF a] len2 old newf newfl nx2 nxn
    by (intro insert_preserves_inv[OF inv T]) (simp_all add: new_def h_def)
  have sub: "set (lo (nodes s) c0 k 0) \<subseteq> set c0" "set (hi (nodes s) c0 k 0) \<subseteq> set c0"
    by (rule lo_subset, rule hi_subset)
  have e1: "map (\<lambda>a. (key (h2 ! a), the (val (h2 ! a)))) (lo (nodes s) c0 k 0)
      = map (\<lambda>a. (key (nodes s ! a), the (val (nodes s ! a)))) (lo (nodes s) c0 k 0)"
    using old sub(1) sl_inv_node[OF inv] by (intro map_cong) auto
  have e2: "map (\<lambda>a. (key (h2 ! a), the (val (h2 ! a)))) (hi (nodes s) c0 k 0)
      = map (\<lambda>a. (key (nodes s ! a), the (val (nodes s ! a)))) (hi (nodes s) c0 k 0)"
    using old sub(2) sl_inv_node[OF inv] by (intro map_cong) auto
  have ent: "entries s' (insert_chain s c0 k) =
        filter (\<lambda>(x, v). x < k) (entries s c0) @ [(k, nv)] @
        filter (\<lambda>(x, v). \<not> x < k) (entries s c0)"
    unfolding entries_filter
    using newf e1 e2
    by (simp add: entries_def insert_chain_def s'_def lo_def hi_def new_def)
  show ?thesis
    using up inv' ent by (intro exI[of _ s']) (simp add: s'_def)
qed

lemma NewSkipList_inv: "sl_inv NewSkipList []"
  by (simp add: sl_inv_def NewSkipList_def MAX_LEVEL_def level_nodes_def nxt_def Let_def)

lemma Upsert_returns:
  assumes "Upsert s k check rnd = Some y"
  shows "(case y of
        Inl p \<Rightarrow> True
      | Inr (s', changed, err) \<Rightarrow>
          (case err of
             Some e \<Rightarrow> s' = s \<and> \<not> changed \<and> (\<exists>cur. check k cur = Inl e)
           | None \<Rightarrow> changed \<and> (\<exists>cur nv. check k cur = Inr nv) \<and>
               count s' = count s + (if no_level s k then 1 else 0)))"
proof (rule Upsert.raw_induct[where P = "\<lambda>s k check rnd y. (case y of
        Inl p \<Rightarrow> True
      | Inr (s', changed, err) \<Rightarrow>
          (case err of
             Some e \<Rightarrow> s' = s \<and> \<not> changed \<and> (\<exists>cur. check k cur = Inl e)
           | None \<Rightarrow> changed \<and> (\<exists>cur nv. check k cur = Inr nv) \<and>
               count s' = count s + (if no_level s k then 1 else 0)))", OF _ assms])
  fix F and s :: "'a skiplist" and k check rnd y
  assume ih: "\<And>s k check rnd y. F s k check rnd = Some y \<Longrightarrow> (case y of
        Inl p \<Rightarrow> True
      | Inr (s', changed, err) \<Rightarrow>
          (case err of
             Some e \<Rightarrow> s' = s \<and> \<not> changed \<and> (\<exists>cur. check k cur = Inl e)
           | None \<Rightarrow> changed \<and> (\<exists>cur nv. check k cur = Inr nv) \<and>
               count s' = count s + (if no_level s k then 1 else 0)))"
    and body: "(case find_sl s k of
        None \<Rightarrow> None
      | Some (Inl p) \<Rightarrow> Some (Inl p)
      | Some (Inr (levelFound, preds, succs)) \<Rightarrow>
          (case levelFound of
             Some lf \<Rightarrow>
               (case index succs lf of
                  Inl p \<Rightarrow> Some (Inl p)
                | Inr foundNode \<Rightarrow>
               (case node_at (nodes s) foundNode of
                  Inl p \<Rightarrow> Some (Inl p)
                | Inr fn \<Rightarrow>
                  if marked fn \<or> \<not> fullyLinked fn then F s k check rnd
                  else
               (case val fn of
                  None \<Rightarrow> Some (Inl NilDeref)
                | Some currValue \<Rightarrow>
               (case check k (Some currValue) of
                  Inl err \<Rightarrow> Some (Inr (s, False, Some err))
                | Inr newValue \<Rightarrow>
                    Some (Inr (s\<lparr>nodes := store_val (nodes s) (the foundNode) newValue\<rparr>,
                               True, None))))))
           | None \<Rightarrow>
               (let topLvl = rnd 0 in
               (case validate_preds (nodes s) preds succs topLvl 0 of
                  Inl p \<Rightarrow> Some (Inl p)
                | Inr valid \<Rightarrow>
                  if \<not> valid then F s k check (\<lambda>i. rnd (Suc i))
                  else
               (case check k None of
                  Inl err \<Rightarrow> Some (Inr (s, False, Some err))
                | Inr newValue \<Rightarrow>
                    (let new = length (nodes s);
                         newNode = \<lparr>key = k, val = Some newValue, topLevel = topLvl,
                                    marked = False, fullyLinked = False,
                                    nexts = replicate (topLvl + 1) None\<rparr>
                     in
               (case link_levels (nodes s @ [newNode]) preds succs new topLvl 0 of
                  Inl p \<Rightarrow> Some (Inl p)
                | Inr h \<Rightarrow>
                    Some (Inr (s\<lparr>nodes := set_fullyLinked h new, count := count s + 1\<rparr>,
                               True, None))))))))) = Some y"
  show "(case y of
        Inl p \<Rightarrow> True
      | Inr (s', changed, err) \<Rightarrow>
          (case err of
             Some e \<Rightarrow> s' = s \<and> \<not> changed \<and> (\<exists>cur. check k cur = Inl e)
           | None \<Rightarrow> changed \<and> (\<exists>cur nv. check k cur = Inr nv) \<and>
               count s' = count s + (if no_level s k then 1 else 0)))"
  proof (cases "find_sl s k")
    case None
    then show ?thesis using body by simp
  next
    case (Some r)
    show ?thesis
    proof (cases r)
      case (Inl p)
      then show ?thesis using body Some by auto
    next
      case (Inr t)
      obtain fl preds succs where t: "t = (fl, preds, succs)" by (cases t) auto
      show ?thesis
      proof (cases fl)
        case None
        have nl: "no_level s k" using Some Inr t None by (simp add: no_level_def)
        show ?thesis
          using body Some Inr t None nl
          by (auto simp: Let_def split: sum.splits if_splits dest: ih; blast)
      next
        case (Some lf)
        have nl: "\<not> no_level s k" using \<open>find_sl s k = Some r\<close> Inr t Some by (simp add: no_level_def)
        show ?thesis
          using body \<open>find_sl s k = Some r\<close> Inr t Some nl
          by (auto simp: Let_def split: sum.splits if_splits option.splits dest: ih; blast)
      qed
    qed
  qed
qed

lemma Remove_loop_count:
  assumes "Remove_loop s k m = Some y"
  shows "(case y of
        Inl p \<Rightarrow> True
      | Inr (s', removed) \<Rightarrow> count s' = count s + (if removed \<noteq> None then 1 else 0))"
proof (rule Remove_loop.raw_induct[where P = "\<lambda>s k m y. (case y of
        Inl p \<Rightarrow> True
      | Inr (s', removed) \<Rightarrow> count s' = count s + (if removed \<noteq> None then 1 else 0))", OF _ assms])
  fix F and s :: "'a skiplist" and k m y
  assume ih: "\<And>s k m y. F s k m = Some y \<Longrightarrow> (case y of
        Inl p \<Rightarrow> True
      | Inr (s', removed) \<Rightarrow> count s' = count s + (if removed \<noteq> None then 1 else 0))"
    and body: "(case find_sl s k of
        None \<Rightarrow> None
      | Some (Inl p) \<Rightarrow> Some (Inl p)
      | Some (Inr (foundLevel, preds, succs)) \<Rightarrow>
          (case foundLevel of
             None \<Rightarrow> Some (Inr (s, None))
           | Some fl \<Rightarrow>
          (case index succs fl of
             Inl p \<Rightarrow> Some (Inl p)
           | Inr victim \<Rightarrow>
             if victim = None then Some (Inr (s, None))
             else
          (case node_at (nodes s) victim of
             Inl p \<Rightarrow> Some (Inl p)
           | Inr vn \<Rightarrow>
             if m = None \<and> (\<not> fullyLinked vn \<or> marked vn \<or> topLevel vn \<noteq> fl)
             then Some (Inr (s, None))
             else
               (let topLvl = (case m of None \<Rightarrow> topLevel vn | Some l \<Rightarrow> l);
                    s1 = (case m of
                            None \<Rightarrow> s\<lparr>nodes := set_marked (nodes s) (the victim)\<rparr>
                          | Some l \<Rightarrow> s)
                in
          (case validate_victim (nodes s1) preds victim topLvl 0 of
             Inl p \<Rightarrow> Some (Inl p)
           | Inr valid \<Rightarrow>
             if \<not> valid then F s1 k (Some topLvl)
             else
          (case unlink_levels (nodes s1) preds victim (Suc topLvl) of
             Inl p \<Rightarrow> Some (Inl p)
           | Inr h \<Rightarrow>
          (case node_at h victim of
             Inl p \<Rightarrow> Some (Inl p)
           | Inr vn' \<Rightarrow>
          (case val vn' of
             None \<Rightarrow> Some (Inl NilDeref)
           | Some removedValue \<Rightarrow>
               Some (Inr (s1\<lparr>nodes := h, count := count s1 + 1\<rparr>, Some removedValue))))))))))) = Some y"
  show "(case y of
        Inl p \<Rightarrow> True
      | Inr (s', removed) \<Rightarrow> count s' = count s + (if removed \<noteq> None then 1 else 0))"
  proof (cases "find_sl s k")
    case None
    then show ?thesis using body by simp
  next
    case (Some r)
    show ?thesis
    proof (cases r)
      case (Inl p)
      then show ?thesis using body Some by auto
    next
      case (Inr t)
      obtain fl preds succs where t: "t = (fl, preds, succs)" by (cases t) auto
      show ?thesis
      proof (cases m)
        case None
        show ?thesis
          using body Some Inr t None
          by (auto simp: Let_def split: sum.splits if_splits option.splits dest!: ih)
      next
        case (Some l)
        show ?thesis
          using body \<open>find_sl s k = Some r\<close> Inr t Some
          by (auto simp: Let_def split: sum.splits if_splits option.splits dest!: ih)
      qed
    qed
  qed
qed

lemma run_count:
  "run s ops = Some (s', n) \<Longrightarrow> count s' = count s + of_nat n"
proof (induction ops arbitrary: s s' n)
  case Nil
  then show ?case by simp
next
  case (Cons x xs)
  then obtain s1 b m where st: "step s x = Some (s1, b)" and r: "run s1 xs = Some (s', m)"
    and n: "n = (if b then 1 else 0) + m"
    by (auto split: option.splits prod.splits)
  have "count s1 = count s + (if b then 1 else 0)"
  proof (cases x)
    case (Upsert_op k check rnd)
    then obtain changed err where u: "Upsert s k check rnd = Some (Inr (s1, changed, err))"
      and b: "b = (no_level s k \<and> changed)"
      using st by (auto split: option.splits sum.splits prod.splits)
    show ?thesis using Upsert_returns[OF u] b by (auto split: option.splits)
  next
    case (Remove_op k)
    then obtain removed where u: "Remove_loop s k None = Some (Inr (s1, removed))"
      and b: "b = (removed \<noteq> None)"
      using st by (auto simp: Remove_def split: option.splits sum.splits prod.splits)
    show ?thesis using Remove_loop_count[OF u] b by auto
  next
    case (Find_op k)
    then show ?thesis using st by (auto split: option.splits sum.splits)
  next
    case (Query_op c a b)
    then show ?thesis using st by (auto split: option.splits sum.splits)
  qed
  then show ?case using Cons.IH[OF r] n by simp
qed

lemma map_of_entries:
  assumes inv: "sl_inv s c0"
  shows "map_of (entries s c0) k =
    (case lookup_addr s c0 k of None \<Rightarrow> None | Some a \<Rightarrow> val (nodes s ! a))"
proof (cases "lookup_addr s c0 k")
  case None
  have "k \<notin> fst ` set (entries s c0)"
    using lookup_addr_None[OF None] by (auto simp: entries_def)
  then show ?thesis using None by (simp add: map_of_eq_None_iff)
next
  case (Some a)
  then have ain: "a \<in> set c0" and ak: "key (nodes s ! a) = k" using lookup_addr_Some by auto
  obtain v where v: "val (nodes s ! a) = Some v" using sl_inv_node[OF inv ain] by auto
  have "distinct (map fst (entries s c0))"
    using sl_inv_sorted[OF inv] strict_sorted_iff by (auto simp: entries_def comp_def)
  moreover have "(k, v) \<in> set (entries s c0)" using ain ak v by (force simp: entries_def)
  ultimately show ?thesis using Some v by simp
qed

lemma nxt_store_val: "nxt (store_val h a v) l b = nxt h l b"
  by (auto simp: nxt_def store_val_def nth_update_node)

lemma update_preserves_inv:
  assumes inv: "sl_inv s c0" and a: "a \<in> set c0"
  shows "sl_inv (s\<lparr>nodes := store_val (nodes s) a v\<rparr>) c0"
proof -
  define h' where "h' = store_val (nodes s) a v"
  have f: "key (h' ! b) = key (nodes s ! b) \<and> topLevel (h' ! b) = topLevel (nodes s ! b) \<and>
      marked (h' ! b) = marked (nodes s ! b) \<and> fullyLinked (h' ! b) = fullyLinked (nodes s ! b) \<and>
      nexts (h' ! b) = nexts (nodes s ! b) \<and> (val (nodes s ! b) \<noteq> None \<longrightarrow> val (h' ! b) \<noteq> None)" for b
    by (simp add: h'_def store_val_def nth_update_node)
  have len: "length h' = length (nodes s)" by (simp add: h'_def store_val_def)
  have lev: "level_nodes h' l c0 = level_nodes (nodes s) l c0" for l
    using f by (simp add: level_nodes_def)
  have "lpath h' l (head s) (level_nodes h' l c0) (tail s)" if "l < MAX_LEVEL" for l
  proof -
    have "lpath h' l (head s) (level_nodes (nodes s) l c0) (tail s) =
          lpath (nodes s) l (head s) (level_nodes (nodes s) l c0) (tail s)"
      by (rule path_cong) (simp add: h'_def nxt_store_val)
    then show ?thesis using sl_inv_path[OF inv that] by (simp add: lev)
  qed
  then show ?thesis
    using inv f len unfolding sl_inv_def Let_def h'_def[symmetric]
    by simp
qed

lemma Upsert_wf:
  assumes inv: "sl_inv s c0" and k: "k \<noteq> []"
    and T: "rnd 0 < MAX_LEVEL \<or> lookup_addr s c0 k \<noteq> None"
  shows "case check k (map_of (entries s c0) k) of
      Inl err \<Rightarrow> Upsert s k check rnd = Some (Inr (s, False, Some err))
    | Inr nv \<Rightarrow>
        (case lookup_addr s c0 k of
           Some a \<Rightarrow> Upsert s k check rnd =
              Some (Inr (s\<lparr>nodes := store_val (nodes s) a nv\<rparr>, True, None))
         | None \<Rightarrow> (\<exists>s'. Upsert s k check rnd = Some (Inr (s', True, None)) \<and>
              sl_inv s' (insert_chain s c0 k) \<and> count s' = count s + 1 \<and>
              head s' = head s \<and> tail s' = tail s \<and>
              entries s' (insert_chain s c0 k) =
                filter (\<lambda>(x, v). x < k) (entries s c0) @ [(k, nv)] @
                filter (\<lambda>(x, v). \<not> x < k) (entries s c0)))"
proof (cases "lookup_addr s c0 k")
  case None
  then have T': "rnd 0 < MAX_LEVEL" using T by simp
  show ?thesis
  proof (cases "check k None")
    case (Inl err)
    then show ?thesis
      using Upsert_insert_error[where check = check and rnd = rnd, OF inv k None T' Inl] None
      by (simp add: map_of_entries[OF inv])
  next
    case (Inr nv)
    then show ?thesis
      using Upsert_insert[where check = check and rnd = rnd, OF inv k None T' Inr] None
      by (simp add: map_of_entries[OF inv])
  qed
next
  case (Some a)
  show ?thesis
    using Upsert_update[OF inv k Some, of check rnd] Some
    by (simp add: map_of_entries[OF inv] split: sum.splits)
qed

text \<open>
  Claim C2 (\<^verbatim>\<open>Upsert\<close> returns \<^verbatim>\<open>changed = true\<close> exactly when a node was inserted). The code
  returns \<^verbatim>\<open>true, nil\<close> also after it has stored a new value in the node of an existing
  key: on the index with the keys a, b and c, an upsert of a leaves every \<^verbatim>\<open>next\<close> pointer
  and the counter as they are, and returns true.
\<close>

theorem Upsert_overwrite_returns_true:
  "Upsert example_index ''a'' (\<lambda>key cur. Inr 7) (\<lambda>i. 1) =
     Some (Inr (example_index\<lparr>nodes := store_val (nodes example_index) 3 7\<rparr>, True, None)) \<and>
   map nexts (store_val (nodes example_index) 3 7) = map nexts (nodes example_index)"
  by code_simp

text \<open>
  Claim C6 (a callback error leaves the index unchanged and is returned). First part, for
  every index state, key and callback: whenever \<^verbatim>\<open>Upsert\<close> returns an error, the index is
  unchanged, the flag is false and the error is one the callback returned. Second part: on
  a well-formed index and for a non-empty key, if the callback fails on the current value
  of the key (\<open>None\<close> when the key is absent), \<^verbatim>\<open>Upsert\<close> returns exactly that error and the
  same index; the callback is reached when the key exists or the random top level is below
  \<open>MAX_LEVEL\<close>.
\<close>

theorem Upsert_callback_error:
  "(Upsert s k check rnd = Some (Inr (s', changed, Some e)) \<longrightarrow>
      s' = s \<and> \<not> changed \<and> (\<exists>cur. check k cur = Inl e)) \<and>
   (sl_inv s c0 \<and> k \<noteq> [] \<and> (rnd 0 < MAX_LEVEL \<or> map_of (entries s c0) k \<noteq> None) \<and>
      check k (map_of (entries s c0) k) = Inl e \<longrightarrow>
      Upsert s k check rnd = Some (Inr (s, False, Some e)))"
proof (rule conjI; rule impI)
  assume "Upsert s k check rnd = Some (Inr (s', changed, Some e))"
  from Upsert_returns[OF this] show "s' = s \<and> \<not> changed \<and> (\<exists>cur. check k cur = Inl e)"
    by simp
next
  assume h: "sl_inv s c0 \<and> k \<noteq> [] \<and> (rnd 0 < MAX_LEVEL \<or> map_of (entries s c0) k \<noteq> None) \<and>
      check k (map_of (entries s c0) k) = Inl e"
  then have inv: "sl_inv s c0" and k: "k \<noteq> []" by auto
  have T: "rnd 0 < MAX_LEVEL \<or> lookup_addr s c0 k \<noteq> None"
    using h by (auto simp: map_of_entries[OF inv])
  from Upsert_wf[where rnd = rnd and check = check, OF inv k T] h
  show "Upsert s k check rnd = Some (Inr (s, False, Some e))" by simp
qed

theorem Upsert_callback_error_witness:
  "sl_inv example_index [3, 2, 4] \<and>
   Upsert example_index ''a'' (\<lambda>key cur. Inl ''exists'') (\<lambda>i. MAX_LEVEL) =
     Some (Inr (example_index, False, Some ''exists'')) \<and>
   Upsert example_index ''d'' (\<lambda>key cur. Inl ''invalid'') (\<lambda>i. 2) =
     Some (Inr (example_index, False, Some ''invalid''))"
proof -
  have i: "sl_inv example_index [3, 2, 4]" by code_simp
  have e: "map_of (entries example_index [3, 2, 4]) ''a'' = Some 1" by code_simp
  have l: "(2::nat) < MAX_LEVEL" by (simp add: MAX_LEVEL_def)
  show ?thesis
    using Upsert_callback_error[of example_index "''a''" "\<lambda>key cur. Inl ''exists''" "\<lambda>i. MAX_LEVEL"
        example_index False "''exists''" "[3, 2, 4]"]
      Upsert_callback_error[of example_index "''d''" "\<lambda>key cur. Inl ''invalid''" "\<lambda>i. 2"
        example_index False "''invalid''" "[3, 2, 4]"] i e l
    by simp
qed

lemma key_store_val [simp]: "key (store_val h a v ! b) = key (h ! b)"
  by (simp add: store_val_def nth_update_node)

lemma val_store_val:
  "val (store_val h a v ! b) = (if b = a \<and> a < length h then Some v else val (h ! b))"
  by (simp add: store_val_def nth_update_node)

lemma lookup_addr_store_val:
  "lookup_addr (s\<lparr>nodes := store_val (nodes s) a v\<rparr>) c0 k = lookup_addr s c0 k"
  by (simp add: lookup_addr_def)

lemma map_of_entries_update:
  assumes inv: "sl_inv s c0" and a: "lookup_addr s c0 k = Some a"
  shows "map_of (entries (s\<lparr>nodes := store_val (nodes s) a v\<rparr>) c0) = (map_of (entries s c0))(k \<mapsto> v)"
proof
  fix x
  define s' where "s' = s\<lparr>nodes := store_val (nodes s) a v\<rparr>"
  have ain: "a \<in> set c0" and ak: "key (nodes s ! a) = k" using lookup_addr_Some[OF a] by auto
  have al: "a < length (nodes s)" using sl_inv_node[OF inv ain] by simp
  have inv': "sl_inv s' c0"
    unfolding s'_def by (rule update_preserves_inv[OF inv ain])
  have lk: "lookup_addr s' c0 y = lookup_addr s c0 y" for y
    unfolding s'_def by (rule lookup_addr_store_val)
  have vl: "val (nodes s' ! b) = (if b = a then Some v else val (nodes s ! b))" for b
    using al by (simp add: s'_def val_store_val)
  have "map_of (entries s' c0) x = ((map_of (entries s c0))(k \<mapsto> v)) x"
  proof (cases "x = k")
    case True
    then show ?thesis
      using a by (simp add: map_of_entries[OF inv'] lk vl)
  next
    case False
    show ?thesis
    proof (cases "lookup_addr s c0 x")
      case None
      then show ?thesis using False
        by (simp add: map_of_entries[OF inv'] map_of_entries[OF inv] lk)
    next
      case (Some b)
      then have "b \<noteq> a" using lookup_addr_Some[OF Some] ak False by auto
      then show ?thesis using False Some
        by (simp add: map_of_entries[OF inv'] map_of_entries[OF inv] lk vl)
    qed
  qed
  then show "map_of (entries (s\<lparr>nodes := store_val (nodes s) a v\<rparr>) c0) x = ((map_of (entries s c0))(k \<mapsto> v)) x"
    by (simp add: s'_def)
qed

lemma map_of_insert_sorted:
  assumes "map_of xs k = None"
  shows "map_of (filter (\<lambda>(x, v). x < k) xs @ [(k, nv)] @ filter (\<lambda>(x, v). \<not> x < k) xs)
     = (map_of xs)(k \<mapsto> nv)"
proof
  fix x
  have s: "map_of (filter (\<lambda>(y, v). P y) xs) x = (if P x then map_of xs x else None)" for P
    by (induction xs) auto
  show "map_of (filter (\<lambda>(x, v). x < k) xs @ [(k, nv)] @ filter (\<lambda>(x, v). \<not> x < k) xs) x
     = ((map_of xs)(k \<mapsto> nv)) x"
    using assms by (auto simp: map_add_def s split: option.splits)
qed

text \<open>The skip list implements a finite map: \<^verbatim>\<open>Upsert\<close> on the map of the entries.\<close>

lemma Upsert_map:
  assumes inv: "sl_inv s c0" and k: "k \<noteq> []"
    and T: "rnd 0 < MAX_LEVEL \<or> map_of (entries s c0) k \<noteq> None"
  shows "case check k (map_of (entries s c0) k) of
      Inl err \<Rightarrow> Upsert s k check rnd = Some (Inr (s, False, Some err))
    | Inr nv \<Rightarrow> (\<exists>s' c0'. Upsert s k check rnd = Some (Inr (s', True, None)) \<and>
          sl_inv s' c0' \<and> map_of (entries s' c0') = (map_of (entries s c0))(k \<mapsto> nv) \<and>
          count s' = count s + (if map_of (entries s c0) k = None then 1 else 0))"
proof -
  have T': "rnd 0 < MAX_LEVEL \<or> lookup_addr s c0 k \<noteq> None"
    using T by (auto simp: map_of_entries[OF inv])
  note w = Upsert_wf[where rnd = rnd and check = check, OF inv k T']
  show ?thesis
  proof (cases "check k (map_of (entries s c0) k)")
    case (Inl err)
    then show ?thesis using w by simp
  next
    case (Inr nv)
    show ?thesis
    proof (cases "lookup_addr s c0 k")
      case None
      then have m: "map_of (entries s c0) k = None" by (simp add: map_of_entries[OF inv])
      obtain s' where "Upsert s k check rnd = Some (Inr (s', True, None))"
        "sl_inv s' (insert_chain s c0 k)" "count s' = count s + 1"
        "entries s' (insert_chain s c0 k) =
                filter (\<lambda>(x, v). x < k) (entries s c0) @ [(k, nv)] @
                filter (\<lambda>(x, v). \<not> x < k) (entries s c0)"
        using w Inr None by auto
      then show ?thesis
        using Inr m map_of_insert_sorted[OF m, of nv]
        by (auto intro!: exI[of _ s'] exI[of _ "insert_chain s c0 k"])
    next
      case (Some a)
      then have ain: "a \<in> set c0" using lookup_addr_Some by auto
      have m: "map_of (entries s c0) k \<noteq> None"
        using Some sl_inv_node[OF inv ain] by (simp add: map_of_entries[OF inv])
      have "Upsert s k check rnd = Some (Inr (s\<lparr>nodes := store_val (nodes s) a nv\<rparr>, True, None))"
        using w Inr Some by simp
      then show ?thesis
        using Inr m update_preserves_inv[OF inv ain, of nv] map_of_entries_update[OF inv Some, of nv]
        by (auto intro!: exI[of _ "s\<lparr>nodes := store_val (nodes s) a nv\<rparr>"] exI[of _ c0])
    qed
  qed
qed

lemma PutDocument_overwrite:
  assumes inv: "sl_inv s c0" and k: "name \<noteq> []" and d: "map_of (entries s c0) name = Some d"
    and ok: "schema body = None" and mode: "mode \<noteq> ''nooverwrite''"
  shows "\<exists>s' c0'. PutDocument s name body user mode schema now fresh rnd = Some (Inr (s', True, None)) \<and>
     sl_inv s' c0' \<and>
     map_of (entries s' c0') = (map_of (entries s c0))(name \<mapsto>
       \<lparr>Name = name, Path = [], Content = body,
        Metadata = \<lparr>CreatedBy = CreatedBy (Metadata d), CreatedAt = CreatedAt (Metadata d),
                    LastModifiedBy = user, LastModifiedAt = now 0\<rparr>,
        Collections = None\<rparr>)"
proof -
  have T: "rnd 0 < MAX_LEVEL \<or> map_of (entries s c0) name \<noteq> None" using d by simp
  show ?thesis
    using Upsert_map[where rnd = rnd and check = "updateCheck body user mode schema now fresh",
        OF inv k T] d ok mode
    by (auto simp: PutDocument_def updateCheck_def)
qed

text \<open>
  Claim C3 (an overwrite keeps \<^verbatim>\<open>createdBy\<close> and \<^verbatim>\<open>createdAt\<close>, sets the modification fields,
  replaces the body and keeps the collection index). The overwrite branch of the callback
  of \<^verbatim>\<open>PutDocument\<close> builds the new document from a zero value and copies \<^verbatim>\<open>CreatedBy\<close> and
  \<^verbatim>\<open>CreatedAt\<close> only: \<^verbatim>\<open>Collections\<close> stays nil (and \<^verbatim>\<open>Path\<close> empty). Here alice creates
  \<^verbatim>\<open>doc1\<close>, whose collection index is the skip list at reference 7, and bob overwrites it:
  the metadata are as the claim says, the collection index is gone.
\<close>

theorem PutDocument_overwrite_loses_Collections:
  "GetDocument example_docs ''doc1'' =
     Some (Inr (Inr \<lparr>Name = ''doc1'', Path = [], Content = ''body1'',
       Metadata = \<lparr>CreatedBy = ''alice'', CreatedAt = 100,
                   LastModifiedBy = ''alice'', LastModifiedAt = 100\<rparr>,
       Collections = Some 7\<rparr>)) \<and>
   GetDocument
     (after (PutDocument example_docs ''doc1'' ''body2'' ''bob'' ''overwrite''
        accept_all (\<lambda>i. 200) 8 (\<lambda>i. 1))) ''doc1'' =
     Some (Inr (Inr \<lparr>Name = ''doc1'', Path = [], Content = ''body2'',
       Metadata = \<lparr>CreatedBy = ''alice'', CreatedAt = 100,
                   LastModifiedBy = ''bob'', LastModifiedAt = 200\<rparr>,
       Collections = None\<rparr>))"
  by code_simp

text \<open>
  Claim C8 (\<^verbatim>\<open>PutDocument\<close> in mode \<^verbatim>\<open>nooverwrite\<close> on an existing name returns a conflict and
  changes nothing). The callback validates the body before it looks at the mode, so for a
  body the schema rejects the error returned is the schema's, not the conflict.
\<close>

theorem PutDocument_nooverwrite_schema_error:
  "PutDocument example_docs ''doc1'' ''body2'' ''jim'' ''nooverwrite''
     (\<lambda>c. Some ''schema: invalid'') (\<lambda>i. 300) 9 (\<lambda>i. 1) =
     Some (Inr (example_docs, False, Some ''schema: invalid'')) \<and>
   ''schema: invalid'' \<noteq> ''document exists and mode is nooverwrite''"
  by code_simp

text \<open>
  Claim C8, as amended: for a name that exists in a well-formed document index, \<^verbatim>\<open>PutDocument\<close>
  in mode \<^verbatim>\<open>nooverwrite\<close> returns an error and the same index, so the stored document, its
  body and its metadata are as before; the error is the conflict when the schema accepts
  the body, and the schema's error when it rejects it.
\<close>

theorem PutDocument_nooverwrite_existing:
  assumes "sl_inv s c0" and "name \<noteq> []" and "map_of (entries s c0) name = Some d"
  shows "PutDocument s name body user ''nooverwrite'' schema now fresh rnd =
     Some (Inr (s, False,
       Some (case schema body of
               Some err \<Rightarrow> err
             | None \<Rightarrow> ''document exists and mode is nooverwrite'')))"
proof -
  have T: "rnd 0 < MAX_LEVEL \<or> map_of (entries s c0) name \<noteq> None" using assms(3) by simp
  show ?thesis
    using Upsert_map[where rnd = rnd and check = "updateCheck body user ''nooverwrite'' schema now fresh",
        OF assms(1,2) T] assms(3)
    by (auto simp: PutDocument_def updateCheck_def split: option.splits)
qed

theorem PutDocument_nooverwrite_existing_witness:
  "sl_inv example_docs [2] \<and> ''doc1'' \<noteq> [] \<and>
   map_of (entries example_docs [2]) ''doc1'' =
     Some \<lparr>Name = ''doc1'', Path = [], Content = ''body1'',
       Metadata = \<lparr>CreatedBy = ''alice'', CreatedAt = 100,
                   LastModifiedBy = ''alice'', LastModifiedAt = 100\<rparr>,
       Collections = Some 7\<rparr> \<and>
   PutDocument example_docs ''doc1'' ''body2'' ''jim'' ''nooverwrite'' accept_all (\<lambda>i. 300) 9 (\<lambda>i. MAX_LEVEL) =
     Some (Inr (example_docs, False, Some ''document exists and mode is nooverwrite''))"
proof -
  have i: "sl_inv example_docs [2]" by code_simp
  have k: "''doc1'' \<noteq> []" by simp
  have d: "map_of (entries example_docs [2]) ''doc1'' =
     Some \<lparr>Name = ''doc1'', Path = [], Content = ''body1'',
       Metadata = \<lparr>CreatedBy = ''alice'', CreatedAt = 100,
                   LastModifiedBy = ''alice'', LastModifiedAt = 100\<rparr>,
       Collections = Some 7\<rparr>" by code_simp
  show ?thesis
    using PutDocument_nooverwrite_existing[OF i k d, of "''body2''" "''jim''" accept_all "\<lambda>i. 300" 9 "\<lambda>i. MAX_LEVEL"] i d
    by (simp add: accept_all_def)
qed

lemma nxt_set_marked: "nxt (set_marked h a) l b = nxt h l b"
  by (auto simp: nxt_def set_marked_def nth_update_node)

lemma unlink_levels_ok:
  "j \<le> MAX_LEVEL \<Longrightarrow> a < length h \<Longrightarrow> j \<le> length (nexts (h ! a)) \<Longrightarrow>
   (\<forall>l < j. P l < length h \<and> P l \<noteq> a \<and> l < length (nexts (h ! P l))) \<Longrightarrow>
   \<exists>h'. unlink_levels h (map (\<lambda>l. Some (P l)) [0..<MAX_LEVEL]) (Some a) j = Inr h' \<and>
      same_shape h h' \<and>
      (\<forall>l x. nxt h' l x = (if l < j \<and> x = P l then nxt h l a else nxt h l x))"
proof (induction j arbitrary: h)
  case 0
  then show ?case by (simp add: same_shape_refl)
next
  case (Suc j)
  have jM: "j < MAX_LEVEL" using Suc.prems by simp
  have Pj: "P j < length h" "P j \<noteq> a" "j < length (nexts (h ! P j))" using Suc.prems by auto
  have ja: "j < length (nexts (h ! a))" using Suc.prems by simp
  define h1 where "h1 = h[P j := (h ! P j)\<lparr>nexts := (nexts (h ! P j))[j := nxt h j a]\<rparr>]"
  have s1: "same_shape h h1" unfolding h1_def by (rule same_shape_store[OF Pj(1)])
  have ld: "load_next (h ! a) j = Inr (nxt h j a)"
    using ja Suc.prems(2) by (simp add: load_next_def index_def nxt_def)
  have st: "store_next h (Some (P j)) j (nxt h j a) = Inr h1"
    unfolding h1_def by (rule store_next_ok[OF Pj(1) Pj(3)])
  have step: "unlink_levels h (map (\<lambda>l. Some (P l)) [0..<MAX_LEVEL]) (Some a) (Suc j) =
      unlink_levels h1 (map (\<lambda>l. Some (P l)) [0..<MAX_LEVEL]) (Some a) j"
    using Suc.prems(2) by (simp add: index_map_upt[OF jM] ld st)
  have n1: "nxt h1 l x = (if x = P j \<and> l = j then nxt h j a else nxt h l x)" for l x
    unfolding h1_def by (rule nxt_store[OF Pj(1) Pj(3)])
  have f1: "a < length h1" "j \<le> length (nexts (h1 ! a))"
    using Suc.prems same_shape_fields[OF s1, of a] s1 by (auto simp: same_shape_def)
  have pre: "\<forall>l < j. P l < length h1 \<and> P l \<noteq> a \<and> l < length (nexts (h1 ! P l))"
    using Suc.prems(4) s1 same_shape_fields[OF s1] by (auto simp: same_shape_def)
  from Suc.IH[OF _ f1 pre] jM obtain h' where
    r: "unlink_levels h1 (map (\<lambda>l. Some (P l)) [0..<MAX_LEVEL]) (Some a) j = Inr h'"
    and s': "same_shape h1 h'"
    and n': "\<forall>l x. nxt h' l x = (if l < j \<and> x = P l then nxt h1 l a else nxt h1 l x)"
    by auto
  have "nxt h' l x = (if l < Suc j \<and> x = P l then nxt h l a else nxt h l x)" for l x
  proof (cases "l = j")
    case True
    then show ?thesis using n'[rule_format, of l x] n1[of l x] by simp
  next
    case False
    then have "(l < Suc j) = (l < j)" by auto
    then show ?thesis using n'[rule_format, of l x] n1[of l x] n1[of l a] False Pj(2) by simp
  qed
  then show ?case using step r same_shape_trans[OF s1 s'] by simp
qed

lemma validate_victim_ok:
  assumes T: "T < MAX_LEVEL"
  shows "j \<le> Suc T \<Longrightarrow>
     (\<forall>l. j \<le> l \<and> l \<le> T \<longrightarrow> P l < length h \<and> \<not> marked (h ! P l) \<and> nxt h l (P l) = Some a) \<Longrightarrow>
     validate_victim h (map (\<lambda>l. Some (P l)) [0..<MAX_LEVEL]) (Some a) T j = Inr True"
proof (induction "Suc T - j" arbitrary: j)
  case 0
  then have "\<not> j \<le> T" by simp
  then show ?case by (subst validate_victim.simps) simp
next
  case (Suc n)
  then have jT: "j \<le> T" and jM: "j < MAX_LEVEL" using T by auto
  have Pj: "P j < length h" "\<not> marked (h ! P j)" "nxt h j (P j) = Some a"
    using Suc.prems jT by auto
  have nn: "n = Suc T - Suc j" using Suc.hyps(2) by simp
  have "validate_victim h (map (\<lambda>l. Some (P l)) [0..<MAX_LEVEL]) (Some a) T (Suc j) = Inr True"
    using Suc.hyps(1)[OF nn] Suc.prems jT by auto
  then show ?case
    using jT Pj load_next_nxt[OF Pj(3)]
    by (subst validate_victim.simps) (simp add: index_map_upt[OF jM] Let_def)
qed

lemma remove_preserves_inv:
  fixes s :: "'v skiplist" and h' :: "'v node list"
  defines "h \<equiv> nodes s"
  assumes inv: "sl_inv s c0" and a: "a \<in> set c0"
    and len: "length h' = length h"
    and old: "\<forall>x < length h. x \<noteq> a \<longrightarrow> key (h' ! x) = key (h ! x) \<and> val (h' ! x) = val (h ! x) \<and>
        topLevel (h' ! x) = topLevel (h ! x) \<and> marked (h' ! x) = marked (h ! x) \<and>
        fullyLinked (h' ! x) = fullyLinked (h ! x) \<and>
        length (nexts (h' ! x)) = length (nexts (h ! x))"
    and nx: "\<forall>l x. nxt h' l x =
        (if l \<le> topLevel (h ! a) \<and> x = pred_of s c0 (key (h ! a)) l then nxt h l a else nxt h l x)"
  shows "sl_inv (s\<lparr>nodes := h', count := c\<rparr>) (filter (\<lambda>x. x \<noteq> a) c0)"
proof -
  define k where "k = key (h ! a)"
  define T where "T = topLevel (h ! a)"
  define c1 where "c1 = filter (\<lambda>x. x \<noteq> a) c0"
  have sub: "set c1 \<subseteq> set c0" "a \<notin> set c1" by (auto simp: c1_def)
  have valid: "\<forall>x \<in> set c0. x < length h" using sl_inv_node[OF inv] by (auto simp: h_def)
  have hv: "head s < length h" "tail s < length h" "head s \<noteq> tail s"
    "head s \<notin> set c0" "tail s \<notin> set c0"
    using inv by (auto simp: sl_inv_def Let_def h_def)
  have ah: "a \<noteq> head s" "a \<noteq> tail s" using a hv by auto
  have dist: "distinct c0" by (rule sl_inv_distinct[OF inv])
  have key': "\<forall>x \<in> set c1. key (h' ! x) = key (h ! x)" using old valid sub by auto
  have eq: "map (\<lambda>x. key (h' ! x)) c1 = map (\<lambda>x. key (h ! x)) c1" using key' by simp
  have srt: "sorted_wrt (<) (map (\<lambda>x. key (h ! x)) c1)"
    using sl_inv_sorted[OF inv] unfolding c1_def h_def sorted_wrt_map by (rule sorted_wrt_filter)
  have sorted': "sorted_wrt (<) (map (\<lambda>x. key (h' ! x)) c1)"
    unfolding eq by (rule srt)
  have nodes': "\<forall>x \<in> set c1. x < length h' \<and> topLevel (h' ! x) < MAX_LEVEL \<and>
         length (nexts (h' ! x)) = Suc (topLevel (h' ! x)) \<and>
         fullyLinked (h' ! x) \<and> \<not> marked (h' ! x) \<and> val (h' ! x) \<noteq> None"
  proof
    fix x assume x: "x \<in> set c1"
    then have "x \<in> set c0" "x \<noteq> a" using sub by auto
    then show "x < length h' \<and> topLevel (h' ! x) < MAX_LEVEL \<and>
         length (nexts (h' ! x)) = Suc (topLevel (h' ! x)) \<and>
         fullyLinked (h' ! x) \<and> \<not> marked (h' ! x) \<and> val (h' ! x) \<noteq> None"
      using sl_inv_node[OF inv \<open>x \<in> set c0\<close>] old len by (simp add: h_def)
  qed
  have paths: "lpath h' l (head s) (level_nodes h' l c1) (tail s)" if l: "l < MAX_LEVEL" for l
  proof -
    define Ll where "Ll = lo h c0 k l"
    define Hl where "Hl = hi h c0 k l"
    have top': "\<forall>x \<in> set c1. topLevel (h' ! x) = topLevel (h ! x)" using old valid sub by auto
    have "filter (\<lambda>x. l \<le> topLevel (h' ! x)) c1 = filter (\<lambda>x. l \<le> topLevel (h ! x)) c1"
      using top' by (intro filter_cong) auto
    then have lev: "level_nodes h' l c1 = filter (\<lambda>x. x \<noteq> a) (level_nodes h l c0)"
      by (simp add: level_nodes_def c1_def conj_commute)
    have split: "level_nodes h l c0 = Ll @ Hl"
      using level_lo_hi[OF inv, of l k] by (simp add: Ll_def Hl_def h_def)
    have oldp: "lpath h l (head s) (Ll @ Hl) (tail s)"
      using sl_inv_path[OF inv l] split by (simp add: h_def)
    have subl: "set Ll \<subseteq> set c0" "set Hl \<subseteq> set c0"
      using lo_subset[of h c0 k l] hi_subset[of h c0 k l] by (auto simp: Ll_def Hl_def)
    have distl: "distinct (Ll @ Hl)"
      using dist split[symmetric] by (simp add: level_nodes_def)
    show ?thesis
    proof (cases "l \<le> T")
      case False
      then have "a \<notin> set (level_nodes h l c0)" by (auto simp: level_nodes_def T_def)
      then have "filter (\<lambda>x. x \<noteq> a) (level_nodes h l c0) = level_nodes h l c0"
        by (auto simp: filter_id_conv)
      moreover have "\<forall>x \<in> set (head s # Ll @ Hl). nxt h' l x = nxt h l x"
        using nx False by (simp add: T_def)
      then have "lpath h' l (head s) (Ll @ Hl) (tail s)" using oldp path_cong by blast
      ultimately show ?thesis using lev split by simp
    next
      case True
      have sa: "succ_of s c0 k l = a"
        using succ_of_present[OF inv a, of k l] True by (simp add: k_def T_def h_def)
      then have Hne: "Hl \<noteq> []" and hdH: "hd Hl = a"
        using ah by (auto simp: succ_of_def Hl_def h_def split: if_splits)
      then obtain rest where H: "Hl = a # rest" by (cases Hl) auto
      have anL: "a \<notin> set Ll" "a \<notin> set rest" using distl H by auto
      have "filter (\<lambda>x. x \<noteq> a) Ll = Ll" "filter (\<lambda>x. x \<noteq> a) rest = rest"
        using anL by (auto simp: filter_id_conv)
      then have flt: "filter (\<lambda>x. x \<noteq> a) (Ll @ Hl) = Ll @ rest"
        using H by simp
      have p1: "lpath h l (head s) Ll a" and p2: "lpath h l a rest (tail s)"
        using oldp H by (simp_all add: path_append)
      define b where "b = (if rest = [] then tail s else hd rest)"
      have na: "nxt h l a = Some b" using path_first[OF p2] by (simp add: b_def)
      have disth: "distinct (head s # Ll)" using distl hv subl by auto
      have pl: "pred_of s c0 k l = last (head s # Ll)"
        by (simp add: pred_of_last Ll_def h_def)
      have r1: "lpath h' l (head s) Ll b"
      proof (rule path_redirect[OF p1 disth])
        show "\<forall>x\<in>set (head s # Ll). x \<noteq> last (head s # Ll) \<longrightarrow> nxt h' l x = nxt h l x"
          using nx pl by (simp add: k_def)
        show "nxt h' l (last (head s # Ll)) = Some b"
          using nx True pl na by (simp add: k_def T_def)
      qed
      have pn: "pred_of s c0 k l \<notin> set rest"
      proof
        assume e: "pred_of s c0 k l \<in> set rest"
        have "pred_of s c0 k l = head s \<or> pred_of s c0 k l \<in> set Ll"
          using pl by (cases "Ll = []") (auto simp: last_in_set)
        then show False using e hv subl H distl by auto
      qed
      have "lpath h' l (head s) (Ll @ rest) (tail s)"
      proof (cases rest)
        case Nil
        then show ?thesis using r1 by (simp add: b_def)
      next
        case (Cons r rs)
        then have "lpath h l r rs (tail s)" using p2 by simp
        moreover have "\<forall>x \<in> set (r # rs). nxt h' l x = nxt h l x"
          using nx pn Cons by (auto simp: k_def)
        ultimately have "lpath h' l r rs (tail s)" using path_cong by blast
        then show ?thesis using r1 Cons by (simp add: path_append b_def)
      qed
      then show ?thesis using lev split flt by simp
    qed
  qed
  have "head s < length h'" "tail s < length h'" using hv len by auto
  moreover have "head s \<notin> set c1" "tail s \<notin> set c1" using hv sub by auto
  moreover have "key (h' ! tail s) = []" "\<not> marked (h' ! head s)" "\<not> marked (h' ! tail s)"
    using inv old hv ah by (auto simp: sl_inv_def Let_def h_def)
  ultimately show ?thesis
    using hv(3) sorted' nodes' paths
    by (simp add: sl_inv_def Let_def c1_def[symmetric])
qed

lemma pred_of_key:
  assumes inv: "sl_inv s c0" and a: "a \<in> set c0" and ak: "key (nodes s ! a) = k"
  shows "pred_of s c0 k l \<noteq> a"
proof (cases "lo (nodes s) c0 k l = []")
  case True
  then show ?thesis using sl_inv_node[OF inv a] by (simp add: pred_of_def)
next
  case False
  then have "last (lo (nodes s) c0 k l) \<in> set (lo (nodes s) c0 k l)" by (rule last_in_set)
  then have "key (nodes s ! last (lo (nodes s) c0 k l)) < k" by (simp add: lo_def)
  then show ?thesis using False ak by (auto simp: pred_of_def)
qed

lemma Remove_absent:
  assumes inv: "sl_inv s c0" and k: "k \<noteq> []" and a: "lookup_addr s c0 k = None"
  shows "Remove s k = Some (Inr (s, None))"
  unfolding Remove_def
  by (subst Remove_loop.simps) (simp add: find_sl_inv[OF inv] found_absent[OF inv k a])

lemma Remove_present:
  assumes inv: "sl_inv s c0" and k: "k \<noteq> []" and a: "lookup_addr s c0 k = Some a"
  shows "\<exists>s'. Remove s k = Some (Inr (s', val (nodes s ! a))) \<and>
      sl_inv s' (filter (\<lambda>x. x \<noteq> a) c0) \<and> count s' = count s + 1 \<and>
      head s' = head s \<and> tail s' = tail s \<and>
      entries s' (filter (\<lambda>x. x \<noteq> a) c0) = filter (\<lambda>(x, v). x \<noteq> k) (entries s c0)"
proof -
  define h where "h = nodes s"
  define T where "T = topLevel (h ! a)"
  define h1 where "h1 = set_marked h a"
  define P where "P = pred_of s c0 k"
  have ain: "a \<in> set c0" and ak: "key (h ! a) = k"
    using lookup_addr_Some[OF a] by (auto simp: h_def)
  have na: "a < length h" "length (nexts (h ! a)) = Suc T" "fullyLinked (h ! a)"
    "\<not> marked (h ! a)" "a \<noteq> head s" "a \<noteq> tail s" "topLevel (h ! a) = T"
    and TM: "T < MAX_LEVEL"
    using sl_inv_node[OF inv ain] by (simp_all add: h_def T_def)
  obtain v where v: "val (h ! a) = Some v" using sl_inv_node[OF inv ain] by (auto simp: h_def)
  have len1: "length h1 = length h" by (simp add: h1_def set_marked_def)
  have f1: "x \<noteq> a \<Longrightarrow> h1 ! x = h ! x" for x by (simp add: h1_def set_marked_def)
  have a1: "nexts (h1 ! a) = nexts (h ! a)" "val (h1 ! a) = val (h ! a)"
    using na by (simp_all add: h1_def set_marked_def)
  have Pa: "P l \<noteq> a" for l
    unfolding P_def using pred_of_key[OF inv ain] ak by (simp add: h_def)
  have Pv: "P l < length h" for l
    unfolding P_def h_def by (rule pred_of_valid[OF inv])
  have Pn: "nxt h l (P l) = Some a" if "l \<le> T" for l
  proof -
    have "l < MAX_LEVEL" using that TM by simp
    from pred_succ_link(2)[OF inv this, of k] succ_of_present[OF inv ain, of k l] ak that
    show ?thesis by (simp add: P_def h_def T_def)
  qed
  have Pm: "\<not> marked (h ! P l)" for l
    unfolding P_def h_def by (rule pred_unmarked[OF inv])
  have vv: "validate_victim h1 (map (\<lambda>l. Some (P l)) [0..<MAX_LEVEL]) (Some a) T 0 = Inr True"
  proof (rule validate_victim_ok[OF TM])
    show "0 \<le> Suc T" by simp
    show "\<forall>l. 0 \<le> l \<and> l \<le> T \<longrightarrow> P l < length h1 \<and> \<not> marked (h1 ! P l) \<and> nxt h1 l (P l) = Some a"
      using Pv Pm Pn Pa by (simp add: len1 f1) (simp add: h1_def nxt_set_marked)
  qed
  have "\<exists>h'. unlink_levels h1 (map (\<lambda>l. Some (P l)) [0..<MAX_LEVEL]) (Some a) (Suc T) = Inr h' \<and>
      same_shape h1 h' \<and>
      (\<forall>l x. nxt h' l x = (if l < Suc T \<and> x = P l then nxt h1 l a else nxt h1 l x))"
  proof (rule unlink_levels_ok)
    show "Suc T \<le> MAX_LEVEL" using TM by simp
    show "a < length h1" using na len1 by simp
    show "Suc T \<le> length (nexts (h1 ! a))" using na a1 by simp
    show "\<forall>l<Suc T. P l < length h1 \<and> P l \<noteq> a \<and> l < length (nexts (h1 ! P l))"
    proof (intro allI impI)
      fix l assume "l < Suc T"
      then have "l \<le> T" by simp
      from nxt_Some[OF Pn[OF this]] show "P l < length h1 \<and> P l \<noteq> a \<and> l < length (nexts (h1 ! P l))"
        using Pa[of l] by (simp add: len1 f1)
    qed
  qed
  then obtain h' where
    ul: "unlink_levels h1 (map (\<lambda>l. Some (P l)) [0..<MAX_LEVEL]) (Some a) (Suc T) = Inr h'"
    and sh: "same_shape h1 h'"
    and nx: "\<forall>l x. nxt h' l x = (if l < Suc T \<and> x = P l then nxt h1 l a else nxt h1 l x)"
    by blast
  have len': "length h' = length h" using sh len1 by (simp add: same_shape_def)
  have va: "val (h' ! a) = Some v"
    using same_shape_fields[OF sh, of a] na len1 a1 v by simp
  define s' where "s' = s\<lparr>nodes := h', count := count s + 1\<rparr>"
  have fs: "find_sl s k = Some (Inr (Some T, map (\<lambda>l. Some (P l)) [0..<MAX_LEVEL],
      map (\<lambda>l. Some (succ_of s c0 k l)) [0..<MAX_LEVEL]))"
    using find_sl_inv[OF inv, of k] found_present[OF inv k a] by (simp add: P_def T_def h_def)
  have ix: "index (map (\<lambda>l. Some (succ_of s c0 k l)) [0..<MAX_LEVEL]) T = Inr (Some a)"
    using index_map_upt[OF TM, of "\<lambda>l. Some (succ_of s c0 k l)"]
      succ_of_present[OF inv ain, of k T] ak by (simp add: h_def T_def)
  have nd: "node_at (nodes s) (Some a) = Inr (nodes s ! a)"
    using na(1) by (simp add: node_at_def h_def)
  have nd': "node_at h' (Some a) = Inr (h' ! a)"
    using na(1) len' by (simp add: node_at_def)
  note vv' = vv[unfolded h1_def h_def]
  note ul' = ul[unfolded h1_def h_def]
  have run: "Remove s k = Some (Inr (s', Some v))"
    unfolding Remove_def
    using na[unfolded h_def] va
    by (subst Remove_loop.simps)
       (simp add: fs ix nd nd' vv' ul' Let_def s'_def del: unlink_levels.simps)
  have old: "\<forall>x < length h. x \<noteq> a \<longrightarrow> key (h' ! x) = key (h ! x) \<and> val (h' ! x) = val (h ! x) \<and>
        topLevel (h' ! x) = topLevel (h ! x) \<and> marked (h' ! x) = marked (h ! x) \<and>
        fullyLinked (h' ! x) = fullyLinked (h ! x) \<and>
        length (nexts (h' ! x)) = length (nexts (h ! x))"
    using same_shape_fields[OF sh] len1 f1 by simp
  have nx': "\<forall>l x. nxt h' l x =
        (if l \<le> topLevel (h ! a) \<and> x = pred_of s c0 (key (h ! a)) l then nxt h l a else nxt h l x)"
    using nx by (simp add: h1_def nxt_set_marked ak P_def T_def less_Suc_eq_le)
  have inv': "sl_inv s' (filter (\<lambda>x. x \<noteq> a) c0)"
    unfolding s'_def
    by (rule remove_preserves_inv[OF inv ain, of h' "count s + 1"])
       (use len' old nx' in \<open>simp_all add: h_def\<close>)
  have "entries s' (filter (\<lambda>x. x \<noteq> a) c0) =
      map (\<lambda>x. (key (h ! x), the (val (h ! x)))) (filter (\<lambda>x. x \<noteq> a) c0)"
    using old sl_inv_node[OF inv] by (auto simp: entries_def s'_def h_def)
  moreover have "filter (\<lambda>x. x \<noteq> a) c0 = filter (\<lambda>x. key (h ! x) \<noteq> k) c0"
    using sl_inv_key_inj[OF inv _ ain] ak by (intro filter_cong) (auto simp: h_def)
  ultimately have ent: "entries s' (filter (\<lambda>x. x \<noteq> a) c0) = filter (\<lambda>(x, v). x \<noteq> k) (entries s c0)"
    by (simp add: entries_filter h_def)
  show ?thesis
    using run inv' ent v by (auto simp: s'_def h_def intro!: exI[of _ s'])
qed

lemma map_of_filter_neq:
  "map_of (filter (\<lambda>(x, v). x \<noteq> k) xs) = (map_of xs)(k := None)"
  by (induction xs) (auto simp: fun_eq_iff)

lemma Remove_map:
  assumes inv: "sl_inv s c0" and k: "k \<noteq> []"
  shows "\<exists>s' c0'. Remove s k = Some (Inr (s', map_of (entries s c0) k)) \<and>
      sl_inv s' c0' \<and> map_of (entries s' c0') = (map_of (entries s c0))(k := None) \<and>
      count s' = count s + (if map_of (entries s c0) k = None then 0 else 1)"
proof (cases "lookup_addr s c0 k")
  case None
  then have m: "map_of (entries s c0) k = None" by (simp add: map_of_entries[OF inv])
  then have "(map_of (entries s c0))(k := None) = map_of (entries s c0)" by (auto simp: fun_eq_iff)
  then show ?thesis using Remove_absent[OF inv k None] m inv by auto
next
  case (Some a)
  then have ain: "a \<in> set c0" using lookup_addr_Some by auto
  have m: "map_of (entries s c0) k = val (nodes s ! a)" "val (nodes s ! a) \<noteq> None"
    using Some sl_inv_node[OF inv ain] by (simp_all add: map_of_entries[OF inv])
  from Remove_present[OF inv k Some] obtain s' where
    "Remove s k = Some (Inr (s', val (nodes s ! a)))"
    "sl_inv s' (filter (\<lambda>x. x \<noteq> a) c0)" "count s' = count s + 1"
    "entries s' (filter (\<lambda>x. x \<noteq> a) c0) = filter (\<lambda>(x, v). x \<noteq> k) (entries s c0)"
    by blast
  then show ?thesis using m by (auto simp: map_of_filter_neq intro!: exI[of _ s'] exI[of _ "filter (\<lambda>x. x \<noteq> a) c0"])
qed

lemma find_sl_empty_key:
  assumes inv: "sl_inv s c0" and top: "level_nodes (nodes s) (MAX_LEVEL - 1) c0 = []"
  shows "\<exists>lf preds succs. find_sl s [] = Some (Inr (Some lf, preds, succs)) \<and>
     index succs lf = Inr (Some (tail s))"
proof -
  have h: "hi (nodes s) c0 [] (MAX_LEVEL - 1) = []" using top by (simp add: hi_def)
  then have su: "succ_of s c0 [] (MAX_LEVEL - 1) = tail s" by (simp add: succ_of_def)
  have kt: "key (nodes s ! tail s) = []" using inv by (simp add: sl_inv_def Let_def)
  have M: "MAX_LEVEL = Suc (MAX_LEVEL - 1)" by (simp add: MAX_LEVEL_def)
  have "found_lvl (\<lambda>l. [] = key (nodes s ! succ_of s c0 [] l)) (Suc (MAX_LEVEL - 1)) = Some (MAX_LEVEL - 1)"
    using su kt by simp
  then have f: "found_lvl (\<lambda>l. [] = key (nodes s ! succ_of s c0 [] l)) MAX_LEVEL = Some (MAX_LEVEL - 1)"
    using M by simp
  have "index (map (\<lambda>l. Some (succ_of s c0 [] l)) [0..<MAX_LEVEL]) (MAX_LEVEL - 1) = Inr (Some (tail s))"
    using index_map_upt[of "MAX_LEVEL - 1" MAX_LEVEL "\<lambda>l. Some (succ_of s c0 [] l)"] su
    by (simp add: MAX_LEVEL_def)
  then show ?thesis using find_sl_inv[OF inv, of "[]"] f by simp
qed

lemma Upsert_empty_key:
  assumes inv: "sl_inv s c0" and top: "level_nodes (nodes s) (MAX_LEVEL - 1) c0 = []"
    and nfl: "\<not> fullyLinked (nodes s ! tail s)"
  shows "Upsert s [] check rnd = None"
proof (cases "Upsert s [] check rnd")
  case None
  then show ?thesis .
next
  case (Some y)
  obtain lf preds succs where fs: "find_sl s [] = Some (Inr (Some lf, preds, succs))"
    and ix: "index succs lf = Inr (Some (tail s))"
    using find_sl_empty_key[OF inv top] by blast
  have nd: "node_at (nodes s) (Some (tail s)) = Inr (nodes s ! tail s)"
    using sl_inv_tail_valid[OF inv] by (simp add: node_at_def)
  have "s' = s \<and> k = [] \<longrightarrow> False"
    if "Upsert s' k check rnd = Some y" for s' :: "'a skiplist" and k check rnd y
  proof (rule Upsert.raw_induct[where P = "\<lambda>s' k check rnd y. s' = s \<and> k = [] \<longrightarrow> False", OF _ that])
    fix F and s' :: "'a skiplist" and k check rnd y
    assume ih: "\<And>s' k check rnd y. F s' k check rnd = Some y \<Longrightarrow> s' = s \<and> k = [] \<longrightarrow> False"
      and body: "(case find_sl s' k of
        None \<Rightarrow> None
      | Some (Inl p) \<Rightarrow> Some (Inl p)
      | Some (Inr (levelFound, preds, succs)) \<Rightarrow>
          (case levelFound of
             Some lf \<Rightarrow>
               (case index succs lf of
                  Inl p \<Rightarrow> Some (Inl p)
                | Inr foundNode \<Rightarrow>
               (case node_at (nodes s') foundNode of
                  Inl p \<Rightarrow> Some (Inl p)
                | Inr fn \<Rightarrow>
                  if marked fn \<or> \<not> fullyLinked fn then F s' k check rnd
                  else
               (case val fn of
                  None \<Rightarrow> Some (Inl NilDeref)
                | Some currValue \<Rightarrow>
               (case check k (Some currValue) of
                  Inl err \<Rightarrow> Some (Inr (s', False, Some err))
                | Inr newValue \<Rightarrow>
                    Some (Inr (s'\<lparr>nodes := store_val (nodes s') (the foundNode) newValue\<rparr>,
                               True, None))))))
           | None \<Rightarrow>
               (let topLvl = rnd 0 in
               (case validate_preds (nodes s') preds succs topLvl 0 of
                  Inl p \<Rightarrow> Some (Inl p)
                | Inr valid \<Rightarrow>
                  if \<not> valid then F s' k check (\<lambda>i. rnd (Suc i))
                  else
               (case check k None of
                  Inl err \<Rightarrow> Some (Inr (s', False, Some err))
                | Inr newValue \<Rightarrow>
                    (let new = length (nodes s');
                         newNode = \<lparr>key = k, val = Some newValue, topLevel = topLvl,
                                    marked = False, fullyLinked = False,
                                    nexts = replicate (topLvl + 1) None\<rparr>
                     in
               (case link_levels (nodes s' @ [newNode]) preds succs new topLvl 0 of
                  Inl p \<Rightarrow> Some (Inl p)
                | Inr h \<Rightarrow>
                    Some (Inr (s'\<lparr>nodes := set_fullyLinked h new, count := count s' + 1\<rparr>,
                               True, None))))))))) = Some y"
    show "s' = s \<and> k = [] \<longrightarrow> False"
    proof
      assume e: "s' = s \<and> k = []"
      then have e': "s' = s" "k = []" by simp_all
      have "F s [] check rnd = Some y"
        using body nfl unfolding e' by (simp add: fs ix nd)
      from ih[OF this] show False by simp
    qed
  qed
  from this[OF Some] show ?thesis by simp
qed

text \<open>
  Claim C2, as amended, in four parts. (1) For every index state, key, callback and random
  levels: whenever \<^verbatim>\<open>Upsert\<close> returns, the flag is true exactly when no error is returned;
  then the callback has returned a value; otherwise the index is unchanged and the error
  is the callback's. (2) On a well-formed index, for a non-empty key that exists or whose
  drawn top level is below \<open>MAX_LEVEL\<close>, \<^verbatim>\<open>Upsert\<close> returns: false with the callback's error
  and the same index when the callback fails; true when it succeeds, both when the key
  exists and its value is overwritten in place (no pointer and no counter changes) and
  when the key is new and a node is inserted (the counter grows by one). (3) For a new
  non-empty key whose drawn top level is \<open>MAX_LEVEL\<close>, \<^verbatim>\<open>Upsert\<close> panics with an index out of
  range and returns nothing. (4) For the empty key, on a well-formed index that has no
  node on the top level, \<^verbatim>\<open>find\<close> takes the tail for the key's node, which is never fully
  linked, and \<^verbatim>\<open>Upsert\<close> retries for ever.
\<close>

theorem Upsert_true_iff_callback_succeeds:
  "(Upsert s k check rnd = Some (Inr (s', changed, err)) \<longrightarrow>
      (changed \<longleftrightarrow> err = None) \<and>
      (changed \<longrightarrow> (\<exists>cur nv. check k cur = Inr nv)) \<and>
      (\<not> changed \<longrightarrow> s' = s \<and> (\<exists>cur e. err = Some e \<and> check k cur = Inl e))) \<and>
   (sl_inv s c0 \<and> k \<noteq> [] \<and> (rnd 0 < MAX_LEVEL \<or> lookup_addr s c0 k \<noteq> None) \<longrightarrow>
      (\<exists>e. check k (map_of (entries s c0) k) = Inl e \<and>
          Upsert s k check rnd = Some (Inr (s, False, Some e))) \<or>
      (\<exists>nv a. check k (map_of (entries s c0) k) = Inr nv \<and> lookup_addr s c0 k = Some a \<and>
          Upsert s k check rnd =
            Some (Inr (s\<lparr>nodes := store_val (nodes s) a nv\<rparr>, True, None))) \<or>
      (\<exists>nv s1. check k (map_of (entries s c0) k) = Inr nv \<and> lookup_addr s c0 k = None \<and>
          Upsert s k check rnd = Some (Inr (s1, True, None)) \<and>
          sl_inv s1 (insert_chain s c0 k) \<and> count s1 = count s + 1 \<and>
          entries s1 (insert_chain s c0 k) =
            filter (\<lambda>(x, v). x < k) (entries s c0) @ [(k, nv)] @
            filter (\<lambda>(x, v). \<not> x < k) (entries s c0))) \<and>
   (sl_inv s c0 \<and> k \<noteq> [] \<and> lookup_addr s c0 k = None \<and> MAX_LEVEL \<le> rnd 0 \<longrightarrow>
      Upsert s k check rnd = Some (Inl IndexOutOfRange)) \<and>
   (sl_inv s c0 \<and> level_nodes (nodes s) (MAX_LEVEL - 1) c0 = [] \<and>
      \<not> fullyLinked (nodes s ! tail s) \<longrightarrow>
      Upsert s [] check rnd = None)"
proof -
  have p1: "Upsert s k check rnd = Some (Inr (s', changed, err)) \<longrightarrow>
      (changed \<longleftrightarrow> err = None) \<and>
      (changed \<longrightarrow> (\<exists>cur nv. check k cur = Inr nv)) \<and>
      (\<not> changed \<longrightarrow> s' = s \<and> (\<exists>cur e. err = Some e \<and> check k cur = Inl e))"
  proof
    assume u: "Upsert s k check rnd = Some (Inr (s', changed, err))"
    show "(changed \<longleftrightarrow> err = None) \<and>
      (changed \<longrightarrow> (\<exists>cur nv. check k cur = Inr nv)) \<and>
      (\<not> changed \<longrightarrow> s' = s \<and> (\<exists>cur e. err = Some e \<and> check k cur = Inl e))"
      using Upsert_returns[OF u] by (cases err) auto
  qed
  have p2: "sl_inv s c0 \<and> k \<noteq> [] \<and> (rnd 0 < MAX_LEVEL \<or> lookup_addr s c0 k \<noteq> None) \<longrightarrow>
      (\<exists>e. check k (map_of (entries s c0) k) = Inl e \<and>
          Upsert s k check rnd = Some (Inr (s, False, Some e))) \<or>
      (\<exists>nv a. check k (map_of (entries s c0) k) = Inr nv \<and> lookup_addr s c0 k = Some a \<and>
          Upsert s k check rnd =
            Some (Inr (s\<lparr>nodes := store_val (nodes s) a nv\<rparr>, True, None))) \<or>
      (\<exists>nv s1. check k (map_of (entries s c0) k) = Inr nv \<and> lookup_addr s c0 k = None \<and>
          Upsert s k check rnd = Some (Inr (s1, True, None)) \<and>
          sl_inv s1 (insert_chain s c0 k) \<and> count s1 = count s + 1 \<and>
          entries s1 (insert_chain s c0 k) =
            filter (\<lambda>(x, v). x < k) (entries s c0) @ [(k, nv)] @
            filter (\<lambda>(x, v). \<not> x < k) (entries s c0))"
  proof
    assume h: "sl_inv s c0 \<and> k \<noteq> [] \<and> (rnd 0 < MAX_LEVEL \<or> lookup_addr s c0 k \<noteq> None)"
    then have inv: "sl_inv s c0" and k: "k \<noteq> []"
      and T: "rnd 0 < MAX_LEVEL \<or> lookup_addr s c0 k \<noteq> None" by auto
    from Upsert_wf[where rnd = rnd and check = check, OF inv k T]
    show "(\<exists>e. check k (map_of (entries s c0) k) = Inl e \<and>
          Upsert s k check rnd = Some (Inr (s, False, Some e))) \<or>
      (\<exists>nv a. check k (map_of (entries s c0) k) = Inr nv \<and> lookup_addr s c0 k = Some a \<and>
          Upsert s k check rnd =
            Some (Inr (s\<lparr>nodes := store_val (nodes s) a nv\<rparr>, True, None))) \<or>
      (\<exists>nv s1. check k (map_of (entries s c0) k) = Inr nv \<and> lookup_addr s c0 k = None \<and>
          Upsert s k check rnd = Some (Inr (s1, True, None)) \<and>
          sl_inv s1 (insert_chain s c0 k) \<and> count s1 = count s + 1 \<and>
          entries s1 (insert_chain s c0 k) =
            filter (\<lambda>(x, v). x < k) (entries s c0) @ [(k, nv)] @
            filter (\<lambda>(x, v). \<not> x < k) (entries s c0))"
      by (auto split: sum.splits option.splits)
  qed
  have p3: "sl_inv s c0 \<and> k \<noteq> [] \<and> lookup_addr s c0 k = None \<and> MAX_LEVEL \<le> rnd 0 \<longrightarrow>
      Upsert s k check rnd = Some (Inl IndexOutOfRange)"
    using Upsert_MAX_LEVEL_panic[of s c0 k rnd check] by simp
  have p4: "sl_inv s c0 \<and> level_nodes (nodes s) (MAX_LEVEL - 1) c0 = [] \<and>
      \<not> fullyLinked (nodes s ! tail s) \<longrightarrow>
      Upsert s [] check rnd = None"
    using Upsert_empty_key[of s c0 check rnd] by simp
  show ?thesis by (rule conjI[OF p1 conjI[OF p2 conjI[OF p3 p4]]])
qed

theorem Upsert_true_iff_callback_succeeds_witness:
  "sl_inv example_index [3, 2, 4] \<and>
   Upsert example_index ''a'' (\<lambda>key cur. Inr 7) (\<lambda>i. 1) =
     Some (Inr (example_index\<lparr>nodes := store_val (nodes example_index) 3 7\<rparr>, True, None)) \<and>
   Upsert example_index ''a'' (\<lambda>key cur. Inl ''no'') (\<lambda>i. 1) =
     Some (Inr (example_index, False, Some ''no'')) \<and>
   Upsert example_index ''d'' (\<lambda>key cur. Inr 7) (\<lambda>i. MAX_LEVEL) = Some (Inl IndexOutOfRange) \<and>
   Upsert example_index [] (\<lambda>key cur. Inr 7) (\<lambda>i. 1) = None \<and>
   (\<exists>cur nv. (\<lambda>key cur. Inr (7::nat) :: error + nat) ''a'' cur = Inr nv)"
proof -
  have i: "sl_inv example_index [3, 2, 4]" by code_simp
  have l: "(\<lambda>i. 1::nat) 0 < MAX_LEVEL" by (simp add: MAX_LEVEL_def)
  have a: "lookup_addr example_index [3, 2, 4] ''a'' = Some 3" by code_simp
  have d: "lookup_addr example_index [3, 2, 4] ''d'' = None" by code_simp
  have t: "level_nodes (nodes example_index) (MAX_LEVEL - 1) [3, 2, 4] = []" by code_simp
  have f: "\<not> fullyLinked (nodes example_index ! tail example_index)" by code_simp
  note w1 = Upsert_true_iff_callback_succeeds[of example_index "''a''"
      "\<lambda>key cur. Inr 7" "\<lambda>i. 1"
      "example_index\<lparr>nodes := store_val (nodes example_index) 3 7\<rparr>" True None "[3, 2, 4]"]
  note w2 = Upsert_true_iff_callback_succeeds[of example_index "''a''"
      "\<lambda>key cur. Inl ''no''" "\<lambda>i. 1" example_index False "Some ''no''" "[3, 2, 4]"]
  note w3 = Upsert_true_iff_callback_succeeds[of example_index "''d''"
      "\<lambda>key cur. Inr 7" "\<lambda>i. MAX_LEVEL" example_index False None "[3, 2, 4]"]
  have u1: "Upsert example_index ''a'' (\<lambda>key cur. Inr 7) (\<lambda>i. 1) =
     Some (Inr (example_index\<lparr>nodes := store_val (nodes example_index) 3 7\<rparr>, True, None))"
    using w1 i l a by auto
  have u2: "Upsert example_index ''a'' (\<lambda>key cur. Inl ''no'') (\<lambda>i. 1) =
     Some (Inr (example_index, False, Some ''no''))"
    using w2 i l a by auto
  have u3: "Upsert example_index ''d'' (\<lambda>key cur. Inr 7) (\<lambda>i. MAX_LEVEL) = Some (Inl IndexOutOfRange)"
    using w3 i d by simp
  have u4: "Upsert example_index [] (\<lambda>key cur. Inr 7) (\<lambda>i. 1) = None"
    using w1 i t f by simp
  have u5: "\<exists>cur nv. (\<lambda>key cur. Inr (7::nat) :: error + nat) ''a'' cur = Inr nv"
    using w1 u1 by simp
  show ?thesis using i u1 u2 u3 u4 u5 by simp
qed

lemma changes_keys_dom: "changes_keys m x \<longleftrightarrow> dom (abs_step m x) \<noteq> dom m"
proof (cases x)
  case (Upsert_op k check rnd)
  show ?thesis
  proof (cases "m k")
    case None
    then show ?thesis using Upsert_op by (auto split: sum.splits)
  next
    case (Some v)
    then have "dom (m(k \<mapsto> w)) = dom m" for w by auto
    then show ?thesis using Upsert_op Some by (auto split: sum.splits)
  qed
next
  case (Remove_op k)
  then show ?thesis by (cases "m k") auto
qed simp_all

lemma no_level_absent:
  assumes inv: "sl_inv s c0" and k: "k \<noteq> []"
  shows "no_level s k \<longleftrightarrow> map_of (entries s c0) k = None"
proof (cases "lookup_addr s c0 k")
  case None
  then show ?thesis
    using found_absent[OF inv k None]
    by (simp add: no_level_def find_sl_inv[OF inv] map_of_entries[OF inv])
next
  case (Some a)
  then have "a \<in> set c0" using lookup_addr_Some by auto
  then show ?thesis
    using found_present[OF inv k Some] Some sl_inv_node[OF inv, of a]
    by (auto simp: no_level_def find_sl_inv[OF inv] map_of_entries[OF inv])
qed

lemma Query_cancelled:
  assumes inv: "sl_inv s c0"
  shows "\<exists>r. Query s (Some e) start end = Some (Inr r)"
proof -
  have w: "\<exists>r. query_walk (nodes s) (tail s) (Some e) g end c [] = Some (Inr r)" for g c
    by (subst query_walk.simps) simp
  have "\<exists>c. (if start = []
             then (case node_at (nodes s) (Some (head s)) of
                     Inl p \<Rightarrow> Some (Inl p)
                   | Inr hn \<Rightarrow> Some (load_next hn 0))
             else (case find_sl s start of
                     None \<Rightarrow> None
                   | Some (Inl p) \<Rightarrow> Some (Inl p)
                   | Some (Inr (foundLevel, preds, succs)) \<Rightarrow> Some (index succs 0)))
           = Some (Inr c)"
  proof (cases "start = []")
    case True
    have p: "lpath (nodes s) 0 (head s) c0 (tail s)"
      using sl_inv_path[OF inv MAX_LEVEL_pos] by simp
    obtain c where c: "nxt (nodes s) 0 (head s) = Some c" using path_first[OF p] by blast
    show ?thesis using True by (simp add: sl_inv_head_valid[OF inv] load_next_nxt[OF c])
  next
    case False
    have "index (map (\<lambda>l. Some (succ_of s c0 start l)) [0..<MAX_LEVEL]) 0 = Inr (Some (succ_of s c0 start 0))"
      using MAX_LEVEL_pos by (simp add: index_def)
    then show ?thesis using False by (simp add: find_sl_inv[OF inv])
  qed
  then obtain c where c1: "(if start = []
             then (case node_at (nodes s) (Some (head s)) of
                     Inl p \<Rightarrow> Some (Inl p)
                   | Inr hn \<Rightarrow> Some (load_next hn 0))
             else (case find_sl s start of
                     None \<Rightarrow> None
                   | Some (Inl p) \<Rightarrow> Some (Inl p)
                   | Some (Inr (foundLevel, preds, succs)) \<Rightarrow> Some (index succs 0)))
           = Some (Inr c)" by blast
  from w[of "end = []" c] obtain r where
    c2: "query_walk (nodes s) (tail s) (Some e) (end = []) end c [] = Some (Inr r)" by blast
  show ?thesis
    by (subst Query.simps) (cases r; simp only: Let_def c1 c2 option.case sum.case; simp)
qed

lemma step_wf:
  assumes inv: "sl_inv s c0" and ok: "op_ok x"
  shows "\<exists>s1 c1. step s x = Some (s1, changes_keys (map_of (entries s c0)) x) \<and>
      sl_inv s1 c1 \<and> map_of (entries s1 c1) = abs_step (map_of (entries s c0)) x"
proof (cases x)
  case (Upsert_op k check rnd)
  then have k: "k \<noteq> []" and T: "rnd 0 < MAX_LEVEL" using ok by auto
  note nl = no_level_absent[OF inv k]
  note u = Upsert_map[where check = check and rnd = rnd, OF inv k disjI1[OF T]]
  show ?thesis
  proof (cases "check k (map_of (entries s c0) k)")
    case (Inl err)
    then have "Upsert s k check rnd = Some (Inr (s, False, Some err))" using u by simp
    then show ?thesis using Upsert_op Inl inv
      by (cases "map_of (entries s c0) k") (auto split: sum.splits)
  next
    case (Inr nv)
    then obtain s' c0' where "Upsert s k check rnd = Some (Inr (s', True, None))"
      "sl_inv s' c0'" "map_of (entries s' c0') = (map_of (entries s c0))(k \<mapsto> nv)"
      using u by auto
    then show ?thesis using Upsert_op Inr nl
      by (cases "map_of (entries s c0) k") (auto split: sum.splits)
  qed
next
  case (Remove_op k)
  then have k: "k \<noteq> []" using ok by simp
  from Remove_map[OF inv k] obtain s' c0' where
    "Remove s k = Some (Inr (s', map_of (entries s c0) k))" "sl_inv s' c0'"
    "map_of (entries s' c0') = (map_of (entries s c0))(k := None)" by blast
  then show ?thesis using Remove_op by auto
next
  case (Find_op k)
  then have k: "k \<noteq> []" using ok by simp
  show ?thesis using Find_op Find_inv[OF inv k] inv by auto
next
  case (Query_op ctxErr a b)
  show ?thesis
  proof (cases ctxErr)
    case None
    then show ?thesis using Query_op Query_inv[OF inv, of a b] inv by auto
  next
    case (Some e)
    then show ?thesis using Query_op Query_cancelled[OF inv, of e a b] inv by auto
  qed
qed

lemma run_wf:
  assumes "sl_inv s c0" "list_all op_ok ops"
  shows "\<exists>s' c'. run s ops = Some (s', snd (abs_run (map_of (entries s c0)) ops)) \<and>
      sl_inv s' c' \<and> map_of (entries s' c') = fst (abs_run (map_of (entries s c0)) ops)"
  using assms
proof (induction ops arbitrary: s c0)
  case Nil
  then show ?case by auto
next
  case (Cons x xs)
  from step_wf[OF Cons.prems(1), of x] Cons.prems(2) obtain s1 c1 where
    st: "step s x = Some (s1, changes_keys (map_of (entries s c0)) x)" and i1: "sl_inv s1 c1"
    and m1: "map_of (entries s1 c1) = abs_step (map_of (entries s c0)) x" by auto
  from Cons.IH[OF i1] Cons.prems(2) obtain s' c' where
    r: "run s1 xs = Some (s', snd (abs_run (map_of (entries s1 c1)) xs))" and i': "sl_inv s' c'"
    and m': "map_of (entries s' c') = fst (abs_run (map_of (entries s1 c1)) xs)" by auto
  show ?case using st r i' m' m1 by (auto simp: split_beta)
qed

lemma sint_count:
  assumes "n < 2 ^ 63"
  shows "sint (of_nat n :: 64 word) = int n"
proof -
  have "sint (of_nat n :: 64 word) = sint (word_of_int (int n) :: 64 word)" by simp
  also have "\<dots> = signed_take_bit 63 (int n)" by (simp only: sint_sbintrunc') simp
  also have "\<dots> = int n"
  proof (rule signed_take_bit_int_eq_self)
    show "- (2 ^ 63) \<le> int n" by (rule order_trans[of _ 0]) simp_all
    show "int n < 2 ^ 63" using assms by simp
  qed
  finally show ?thesis .
qed

text \<open>
  Claim C9 (the structural counter counts the successful inserts and removes). \<open>step\<close> runs
  one operation of the index and tells whether it was a successful insert (an \<^verbatim>\<open>Upsert\<close>
  that found no node for the key and returned true) or a successful remove; \<open>run\<close> runs a
  sequence of operations and counts these. \<open>abs_step\<close> is the same operation on the finite
  map from keys to values, and \<open>changes_keys\<close> tells whether it changes the set of keys;
  \<open>abs_run\<close> counts those. The counter is the 64-bit word of \<^verbatim>\<open>atomic.Int64\<close>, read as a
  signed integer by \<open>sint\<close>. Four parts.
  (1) For every state: a step adds one to the counter when it is a successful insert or
  remove, and leaves it otherwise (in-place update, failed operation, \<^verbatim>\<open>Find\<close>, \<^verbatim>\<open>Query\<close>).
  (2) After any run from a new skip list the counter is the number of successful inserts
  and removes, as a 64-bit word; below \<open>2^63\<close> changes this is that number itself.
  (3) On a well-formed index, an operation with a non-empty key (and, for \<^verbatim>\<open>Upsert\<close>, a drawn
  level below \<open>MAX_LEVEL\<close>) returns, is a successful insert or remove exactly when it changes
  the set of keys of the map, and leaves a well-formed index whose entries are the map
  after the operation: a counted insert has linked its node and a counted remove has
  unlinked it. (4) A run of such operations from a new skip list returns, its entries
  are those of the run on the map, and the counter is the number of operations that
  changed the set of keys.
\<close>

theorem count_counts_inserts_and_removes:
  "(step s x = Some (s1, structural) \<longrightarrow> count s1 = count s + (if structural then 1 else 0)) \<and>
   (run NewSkipList ops = Some (s', n) \<longrightarrow>
      count s' = of_nat n \<and> (n < 2 ^ 63 \<longrightarrow> sint (count s') = int n)) \<and>
   (sl_inv s c0 \<and> op_ok x \<longrightarrow>
      (\<exists>s2 c2. step s x = Some (s2, changes_keys (map_of (entries s c0)) x) \<and> sl_inv s2 c2 \<and>
          map_of (entries s2 c2) = abs_step (map_of (entries s c0)) x) \<and>
      changes_keys (map_of (entries s c0)) x =
        (dom (abs_step (map_of (entries s c0)) x) \<noteq> dom (map_of (entries s c0)))) \<and>
   (list_all op_ok ops \<longrightarrow>
      (\<exists>s3 c3. run NewSkipList ops = Some (s3, snd (abs_run Map.empty ops)) \<and> sl_inv s3 c3 \<and>
          map_of (entries s3 c3) = fst (abs_run Map.empty ops) \<and>
          count s3 = of_nat (snd (abs_run Map.empty ops))))"
proof -
  have p1: "step s x = Some (s1, structural) \<longrightarrow> count s1 = count s + (if structural then 1 else 0)"
  proof
    assume "step s x = Some (s1, structural)"
    then have "run s [x] = Some (s1, if structural then 1 else 0)" by simp
    from run_count[OF this] show "count s1 = count s + (if structural then 1 else 0)" by simp
  qed
  have p2: "run NewSkipList ops = Some (s', n) \<longrightarrow>
      count s' = of_nat n \<and> (n < 2 ^ 63 \<longrightarrow> sint (count s') = int n)"
  proof
    assume "run NewSkipList ops = Some (s', n)"
    from run_count[OF this] have c: "count s' = of_nat n" by (simp add: NewSkipList_def)
    then show "count s' = of_nat n \<and> (n < 2 ^ 63 \<longrightarrow> sint (count s') = int n)"
      using sint_count[of n] by simp
  qed
  have p3: "sl_inv s c0 \<and> op_ok x \<longrightarrow>
      (\<exists>s2 c2. step s x = Some (s2, changes_keys (map_of (entries s c0)) x) \<and> sl_inv s2 c2 \<and>
          map_of (entries s2 c2) = abs_step (map_of (entries s c0)) x) \<and>
      changes_keys (map_of (entries s c0)) x =
        (dom (abs_step (map_of (entries s c0)) x) \<noteq> dom (map_of (entries s c0)))"
    using step_wf[of s c0 x] changes_keys_dom[of "map_of (entries s c0)" x] by blast
  have p4: "list_all op_ok ops \<longrightarrow>
      (\<exists>s3 c3. run NewSkipList ops = Some (s3, snd (abs_run Map.empty ops)) \<and> sl_inv s3 c3 \<and>
          map_of (entries s3 c3) = fst (abs_run Map.empty ops) \<and>
          count s3 = of_nat (snd (abs_run Map.empty ops)))"
  proof
    assume ok: "list_all op_ok ops"
    from run_wf[OF NewSkipList_inv ok] obtain s3 c3 where
      r: "run NewSkipList ops = Some (s3, snd (abs_run Map.empty ops))" and i: "sl_inv s3 c3"
      and m: "map_of (entries s3 c3) = fst (abs_run Map.empty ops)"
      by (auto simp: entries_def)
    from run_count[OF r] have "count s3 = of_nat (snd (abs_run Map.empty ops))"
      by (simp add: NewSkipList_def)
    then show "\<exists>s3 c3. run NewSkipList ops = Some (s3, snd (abs_run Map.empty ops)) \<and> sl_inv s3 c3 \<and>
          map_of (entries s3 c3) = fst (abs_run Map.empty ops) \<and>
          count s3 = of_nat (snd (abs_run Map.empty ops))"
      using r i m by blast
  qed
  show ?thesis by (rule conjI[OF p1 conjI[OF p2 conjI[OF p3 p4]]])
qed

theorem count_counts_inserts_and_removes_witness:
  "list_all op_ok example_ops \<and> sl_inv example_index [3, 2, 4] \<and> op_ok (Remove_op ''b'' :: nat op) \<and>
   snd (abs_run Map.empty example_ops) = 3 \<and>
   map_option snd (run NewSkipList example_ops) = Some 3 \<and>
   map_option (\<lambda>r. count (fst r)) (run NewSkipList example_ops) = Some 3 \<and>
   map_option (\<lambda>r. sint (count (fst r))) (run NewSkipList example_ops) = Some 3 \<and>
   map_option snd (step example_index (Remove_op ''b'')) = Some True \<and>
   map_option (\<lambda>r. count (fst r)) (step example_index (Remove_op ''b'')) = Some 4"
proof -
  have ok: "list_all op_ok example_ops" by code_simp
  have i: "sl_inv example_index [3, 2, 4]" by code_simp
  have o: "op_ok (Remove_op ''b'' :: nat op)" by simp
  have n: "snd (abs_run Map.empty example_ops) = 3" by code_simp
  have c: "changes_keys (map_of (entries example_index [3, 2, 4])) (Remove_op ''b'')" by code_simp
  have ci: "count example_index = 3" by code_simp
  have l: "(3::nat) < 2 ^ 63" by simp
  note w4 = count_counts_inserts_and_removes[of example_index "Remove_op ''b''" example_index
      False example_ops example_index 0 "[3, 2, 4]",
      THEN conjunct2, THEN conjunct2, THEN conjunct2, rule_format, OF ok]
  then obtain s3 where r: "run NewSkipList example_ops = Some (s3, 3)"
    unfolding n by blast
  note w2 = count_counts_inserts_and_removes[of example_index "Remove_op ''b''" example_index
      False example_ops s3 3 "[3, 2, 4]", THEN conjunct2, THEN conjunct1, rule_format, OF r]
  have cr: "count s3 = 3" "sint (count s3) = 3" using w2 l by simp_all
  note w3 = count_counts_inserts_and_removes[of example_index "Remove_op ''b''" example_index
      False example_ops example_index 0 "[3, 2, 4]",
      THEN conjunct2, THEN conjunct2, THEN conjunct1, rule_format, OF conjI[OF i o]]
  then obtain s2 where st: "step example_index (Remove_op ''b'') = Some (s2, True)"
    using c by auto
  note w1 = count_counts_inserts_and_removes[of example_index "Remove_op ''b''" s2
      True example_ops example_index 0 "[3, 2, 4]", THEN conjunct1, rule_format, OF st]
  have cs: "count s2 = 4" using w1 ci by simp
  show ?thesis using ok i o n r cr st cs by simp
qed

end
